theory Spec2Isabelle
  imports Main "HOL-Library.Stream" "HOL-Library.Word"
begin

section \<open>The process and its descriptors\<close>

text \<open>
  \<^verbatim>\<open>parent.cpp\<close> talks to the kernel through \<^verbatim>\<open>read\<close> and \<^verbatim>\<open>write\<close>. What a call
  returns is decided by the other side of the pipe, so the model takes it from the
  environment: every descriptor has the sequence of results its successive
  \<^verbatim>\<open>read\<close> calls (of one byte) will return, and the sequence of results of its
  successive \<^verbatim>\<open>write\<close> calls. The sequences are infinite (a descriptor can be read
  for ever), so they are streams.
\<close>

datatype read_result =
    RByte char    \<comment> \<open>\<^verbatim>\<open>read\<close> returns 1 and stores the byte\<close>
  | REof          \<comment> \<open>\<^verbatim>\<open>read\<close> returns 0: end of stream, \<^verbatim>\<open>errno\<close> untouched\<close>
  | RFail int     \<comment> \<open>\<^verbatim>\<open>read\<close> returns -1 and sets \<^verbatim>\<open>errno\<close>\<close>

datatype write_result =
    WAll          \<comment> \<open>\<^verbatim>\<open>write\<close> returns the size asked for\<close>
  | WShort nat    \<comment> \<open>\<^verbatim>\<open>write\<close> takes only so many bytes\<close>
  | WFail int     \<comment> \<open>\<^verbatim>\<open>write\<close> returns -1 and sets \<^verbatim>\<open>errno\<close>\<close>
  | WSigpipe      \<comment> \<open>\<^verbatim>\<open>write\<close> raises \<^verbatim>\<open>SIGPIPE\<close> and does not return\<close>

datatype window = tx_window | rx_window

datatype event =
    EvWrite nat string "int option"
      \<comment> \<open>descriptor, bytes handed to \<^verbatim>\<open>write\<close>, its return value if it returned\<close>
  | EvRead nat read_result      \<comment> \<open>descriptor, what \<^verbatim>\<open>read\<close> returned\<close>
  | EvAddLine window string
  | EvRefresh
  | EvSleep nat

text \<open>
  The state of the parent process that the loop touches: \<^verbatim>\<open>errno\<close>, the
  function-static \<^verbatim>\<open>needs_a_reset\<close> of \<^verbatim>\<open>GetLine\<close>, what the descriptors will
  deliver, and the system calls and display calls made so far, oldest first.
\<close>

record process =
  errno :: int
  needs_a_reset :: bool
  reads :: "nat \<Rightarrow> read_result stream"
  writes :: "nat \<Rightarrow> write_result stream"
  trace :: "event list"

definition EAGAIN :: int where
  "EAGAIN = 11"

definition EINTR :: int where
  "EINTR = 4"

definition newline :: char where
  "newline = CHR 0x0A"

definition READ_SIDE :: nat where
  "READ_SIDE = 0"

definition WRITE_SIDE :: nat where
  "WRITE_SIDE = 1"

text \<open>
  \<^verbatim>\<open>read(fd, &c, 1)\<close>: the return value, the byte stored in \<^verbatim>\<open>c\<close> (if any) and the
  process afterwards. Only a failing call writes \<^verbatim>\<open>errno\<close>.
\<close>

definition read_sys :: "nat \<Rightarrow> process \<Rightarrow> int \<times> char option \<times> process" where
  "read_sys fd p =
     (let r = shd (reads p fd);
          p' = p\<lparr>reads := (reads p)(fd := stl (reads p fd)),
                 trace := trace p @ [EvRead fd r]\<rparr>
      in case r of
           RByte c \<Rightarrow> (1, Some c, p')
         | REof \<Rightarrow> (0, None, p')
         | RFail e \<Rightarrow> (- 1, None, p'\<lparr>errno := e\<rparr>))"

text \<open>
  \<^verbatim>\<open>write(fd, s.c_str(), s.size())\<close>: the return value and the process afterwards.
  \<^verbatim>\<open>parent.cpp\<close> leaves \<^verbatim>\<open>SIGPIPE\<close> at its default action, so a write to a pipe
  that nobody reads any more ends the process inside \<^verbatim>\<open>write\<close>: then there is no
  return value, and the process given is the one the signal ends.
\<close>

definition write_sys :: "nat \<Rightarrow> string \<Rightarrow> process \<Rightarrow> int option \<times> process" where
  "write_sys fd s p =
     (let r = shd (writes p fd);
          ret = (case r of WAll \<Rightarrow> Some (int (length s))
                         | WShort k \<Rightarrow> Some (int (min k (length s)))
                         | WFail e \<Rightarrow> Some (- 1)
                         | WSigpipe \<Rightarrow> None);
          p' = p\<lparr>writes := (writes p)(fd := stl (writes p fd)),
                 trace := trace p @ [EvWrite fd s ret]\<rparr>
      in case r of WFail e \<Rightarrow> (ret, p'\<lparr>errno := e\<rparr>) | _ \<Rightarrow> (ret, p'))"

section \<open>GetLine\<close>

text \<open>
  The \<^verbatim>\<open>while\<close> loop of \<^verbatim>\<open>GetLine\<close>. It returns \<^verbatim>\<open>retval\<close>, the last
  \<^verbatim>\<open>read_return_value\<close>, the buffer and the process. The variable \<^verbatim>\<open>c\<close> is looked
  at only after a \<^verbatim>\<open>read\<close> that returned 1, which has stored a byte in it. A
  descriptor that keeps delivering bytes other than newline keeps the loop running: then
  there is no result.
\<close>

partial_function (option) GetLine_loop ::
  "nat \<Rightarrow> string \<Rightarrow> process \<Rightarrow> (bool \<times> int \<times> string \<times> process) option" where
  "GetLine_loop fd buffer p =
     (case read_sys fd p of
        (read_return_value, c, p') \<Rightarrow>
          if read_return_value = 1 then
            (let buffer' = buffer @ [the c] in
             if the c = newline
             then Some (True, read_return_value, buffer', p'\<lparr>needs_a_reset := True\<rparr>)
             else GetLine_loop fd buffer' p')
          else Some (False, read_return_value, buffer, p'))"

text \<open>
  \<^verbatim>\<open>bool GetLine(int fd, string & buffer, bool & error)\<close>: the result is
  \<^verbatim>\<open>retval\<close>, \<^verbatim>\<open>error\<close>, the caller's buffer and the process.
\<close>

definition GetLine ::
  "nat \<Rightarrow> string \<Rightarrow> process \<Rightarrow> (bool \<times> bool \<times> string \<times> process) option" where
  "GetLine fd buffer p =
     (let (buffer1, p1) =
            (if needs_a_reset p then ([], p\<lparr>needs_a_reset := False\<rparr>) else (buffer, p))
      in case GetLine_loop fd buffer1 p1 of
           None \<Rightarrow> None
         | Some (retval, read_return_value, buffer2, p2) \<Rightarrow>
             Some (retval, read_return_value \<le> 0 \<and> errno p2 \<noteq> EAGAIN, buffer2, p2))"

section \<open>The duplex loop of main\<close>

text \<open>
  The display (\<^verbatim>\<open>AddLine\<close>, \<^verbatim>\<open>Refresh\<close>) and the wait are collaborators: the model
  records that they were called. \<^verbatim>\<open>AddLine\<close> is handed \<^verbatim>\<open>s.c_str()\<close>, which ends at
  the first zero byte.
\<close>

definition c_str :: "string \<Rightarrow> string" where
  "c_str s = takeWhile (\<lambda>c. c \<noteq> CHR 0x00) s"

definition AddLine :: "window \<Rightarrow> string \<Rightarrow> process \<Rightarrow> process" where
  "AddLine w s p = p\<lparr>trace := trace p @ [EvAddLine w s]\<rparr>"

definition Refresh :: "process \<Rightarrow> process" where
  "Refresh p = p\<lparr>trace := trace p @ [EvRefresh]\<rparr>"

definition sleep_for :: "nat \<Rightarrow> process \<Rightarrow> process" where
  "sleep_for ms p = p\<lparr>trace := trace p @ [EvSleep ms]\<rparr>"

text \<open>What \<^verbatim>\<open>ss << n\<close> inserts for an unsigned integer: its decimal digits.\<close>

definition digit_char :: "nat \<Rightarrow> char" where
  "digit_char d = ''0123456789'' ! d"

fun decimal :: "nat \<Rightarrow> string" where
  "decimal n = (if n < 10 then [digit_char n] else decimal (n div 10) @ [digit_char (n mod 10)])"

declare decimal.simps [simp del]

text \<open>The local variables of \<^verbatim>\<open>main\<close> that live across iterations.\<close>

record main_locals =
  message_counter :: "64 word"
  buffer :: string
  error :: bool

definition outbound :: "64 word \<Rightarrow> string" where
  "outbound n = ''Line: '' @ decimal (unat n) @ [newline]"

text \<open>
  How a pass through the body of \<^verbatim>\<open>while (true)\<close> ends: the process is ended by a
  signal inside \<^verbatim>\<open>write\<close>, or the pass runs to its end, through \<^verbatim>\<open>break\<close> or not.
\<close>

datatype pass =
    Signalled (pass_locals: main_locals) (pass_process: process)
  | Passed bool (pass_locals: main_locals) (pass_process: process)

text \<open>
  One pass through the body of \<^verbatim>\<open>while (true)\<close>. The value \<^verbatim>\<open>write\<close> returns is
  dropped, as in the source. There is no result when \<^verbatim>\<open>GetLine\<close> does not return.
\<close>

definition loop_body :: "nat list \<Rightarrow> nat list \<Rightarrow> main_locals \<times> process \<Rightarrow> pass option" where
  "loop_body to_child from_child st =
     (case st of (m, p) \<Rightarrow>
        let s = outbound (message_counter m);
            m1 = m\<lparr>message_counter := message_counter m + 1\<rparr>
        in case write_sys (to_child ! WRITE_SIDE) s p of
             (None, p1) \<Rightarrow> Some (Signalled m1 p1)
           | (Some ret, p1) \<Rightarrow>
               let p2 = AddLine tx_window (c_str s) p1
               in case GetLine (from_child ! READ_SIDE) (buffer m1) p2 of
                    None \<Rightarrow> None
                  | Some (retval, err, buf, p3) \<Rightarrow>
                      let m2 = m1\<lparr>buffer := buf, error := err\<rparr>;
                          p4 = (if retval then AddLine rx_window (c_str buf) p3 else p3)
                      in if err then Some (Passed True m2 p4)
                         else Some (Passed False m2 (sleep_for 250 (Refresh p4))))"

datatype loop_status = Running | Exited | Killed

text \<open>
  The loop, run for at most so many passes: \<open>Exited\<close> with the state at the
  \<^verbatim>\<open>break\<close>, \<open>Killed\<close> with the state at the signal, or \<open>Running\<close> with the
  state after the last pass.
\<close>

fun main_loop ::
  "nat \<Rightarrow> nat list \<Rightarrow> nat list \<Rightarrow> main_locals \<times> process
     \<Rightarrow> (loop_status \<times> main_locals \<times> process) option" where
  "main_loop 0 to_child from_child st = Some (Running, st)"
| "main_loop (Suc n) to_child from_child st =
     (case loop_body to_child from_child st of
        None \<Rightarrow> None
      | Some (Signalled m' p') \<Rightarrow> Some (Killed, m', p')
      | Some (Passed brk m' p') \<Rightarrow>
          if brk then Some (Exited, m', p') else main_loop n to_child from_child (m', p'))"

text \<open>The locals as \<^verbatim>\<open>main\<close> declares them.\<close>

definition main_init :: main_locals where
  "main_init = \<lparr>message_counter = 0, buffer = [], error = False\<rparr>"

text \<open>
  The process when the loop is entered: \<^verbatim>\<open>needs_a_reset\<close> has its initialiser;
  \<^verbatim>\<open>errno\<close> is whatever the start-up calls left.
\<close>

definition process_init ::
  "int \<Rightarrow> (nat \<Rightarrow> read_result stream) \<Rightarrow> (nat \<Rightarrow> write_result stream) \<Rightarrow> process" where
  "process_init e rd wr =
     \<lparr>errno = e, needs_a_reset = True, reads = rd, writes = wr, trace = []\<rparr>"

section \<open>Descriptor bookkeeping around fork\<close>

datatype pipe_name = to_child_pipe | from_child_pipe

datatype open_file = Terminal | PipeEnd pipe_name nat

type_synonym fd_table = "nat \<Rightarrow> open_file option"

text \<open>
  \<^verbatim>\<open>pipe(fds)\<close> takes the two lowest unused descriptors below the limit of the
  process; with fewer than two it fails.
\<close>

definition free_fds :: "nat \<Rightarrow> fd_table \<Rightarrow> nat list" where
  "free_fds lim t = filter (\<lambda>n. t n = None) [0..<lim]"

definition pipe_sys :: "nat \<Rightarrow> pipe_name \<Rightarrow> fd_table \<Rightarrow> (nat list \<times> fd_table) option" where
  "pipe_sys lim nm t =
     (case free_fds lim t of
        r # w # _ \<Rightarrow>
          Some ([r, w], t(r \<mapsto> PipeEnd nm READ_SIDE, w \<mapsto> PipeEnd nm WRITE_SIDE))
      | _ \<Rightarrow> None)"

definition dup2 :: "nat \<Rightarrow> nat \<Rightarrow> fd_table \<Rightarrow> fd_table" where
  "dup2 oldfd newfd t = (case t oldfd of None \<Rightarrow> t | Some f \<Rightarrow> t(newfd \<mapsto> f))"

definition close :: "nat \<Rightarrow> fd_table \<Rightarrow> fd_table" where
  "close fd t = t(fd := None)"

definition STDIN_FILENO :: nat where
  "STDIN_FILENO = 0"

definition STDOUT_FILENO :: nat where
  "STDOUT_FILENO = 1"

text \<open>
  \<^verbatim>\<open>InitializeChild\<close> up to \<^verbatim>\<open>execl\<close>: the descriptor table that \<^verbatim>\<open>/bin/cat\<close>
  starts with.
\<close>

definition InitializeChild :: "nat list \<Rightarrow> nat list \<Rightarrow> fd_table \<Rightarrow> fd_table" where
  "InitializeChild to_child from_child t =
     (let t1 = dup2 (to_child ! READ_SIDE) STDIN_FILENO t;
          t2 = close (to_child ! READ_SIDE) t1;
          t3 = dup2 (from_child ! WRITE_SIDE) STDOUT_FILENO t2;
          t4 = close (from_child ! WRITE_SIDE) t3;
          t5 = close (to_child ! WRITE_SIDE) t4
      in close (from_child ! READ_SIDE) t5)"

text \<open>
  \<^verbatim>\<open>InitializeParent\<close>: the table, and the open files switched to non-blocking
  (\<^verbatim>\<open>O_NONBLOCK\<close> belongs to the open file, not to the descriptor).
\<close>

definition InitializeParent ::
  "nat list \<Rightarrow> nat list \<Rightarrow> fd_table \<Rightarrow> fd_table \<times> open_file set" where
  "InitializeParent to_child from_child t =
     (let t1 = close (to_child ! READ_SIDE) t;
          t2 = close (from_child ! WRITE_SIDE) t1
      in (t2, (case t2 (from_child ! READ_SIDE) of None \<Rightarrow> {} | Some f \<Rightarrow> {f})))"

datatype startup_error = PipeToChildFailed | PipeFromChildFailed

record roles =
  to_child :: "nat list"
  from_child :: "nat list"
  parent_fds :: fd_table
  child_fds :: fd_table
  nonblocking :: "open_file set"

text \<open>
  \<^verbatim>\<open>main\<close> from the first \<^verbatim>\<open>pipe\<close> to the loop, for a \<^verbatim>\<open>fork\<close> that succeeds: both
  processes start from the same table.
\<close>

definition establish :: "nat \<Rightarrow> fd_table \<Rightarrow> startup_error + roles" where
  "establish lim t =
     (case pipe_sys lim to_child_pipe t of
        None \<Rightarrow> Inl PipeToChildFailed
      | Some (tc, t1) \<Rightarrow>
          (case pipe_sys lim from_child_pipe t1 of
             None \<Rightarrow> Inl PipeFromChildFailed
           | Some (fc, t2) \<Rightarrow>
               (case InitializeParent tc fc t2 of
                  (pt, nb) \<Rightarrow>
                    Inr \<lparr>to_child = tc, from_child = fc, parent_fds = pt,
                         child_fds = InitializeChild tc fc t2, nonblocking = nb\<rparr>)))"

definition is_pipe :: "open_file \<Rightarrow> bool" where
  "is_pipe f = (case f of PipeEnd _ _ \<Rightarrow> True | Terminal \<Rightarrow> False)"

definition pipe_fds :: "fd_table \<Rightarrow> nat set" where
  "pipe_fds t = {fd. \<exists>f. t fd = Some f \<and> is_pipe f}"

section \<open>Runs of calls and scripted descriptors\<close>

text \<open>The process after one \<^verbatim>\<open>read\<close> on a descriptor.\<close>

definition consume :: "nat \<Rightarrow> process \<Rightarrow> process" where
  "consume fd p = snd (snd (read_sys fd p))"

text \<open>
  So many successive calls of \<^verbatim>\<open>GetLine\<close> on one descriptor, the buffer of one call
  handed to the next, as \<^verbatim>\<open>main\<close> does with its local \<^verbatim>\<open>buffer\<close>. The result lists
  \<^verbatim>\<open>retval\<close>, \<^verbatim>\<open>error\<close> and the buffer after each call, then the last buffer and
  process.
\<close>

fun GetLine_calls ::
  "nat \<Rightarrow> nat \<Rightarrow> string \<Rightarrow> process
     \<Rightarrow> ((bool \<times> bool \<times> string) list \<times> string \<times> process) option" where
  "GetLine_calls 0 fd buf p = Some ([], buf, p)"
| "GetLine_calls (Suc n) fd buf p =
     (case GetLine fd buf p of
        None \<Rightarrow> None
      | Some (retval, err, buf', p') \<Rightarrow>
          (case GetLine_calls n fd buf' p' of
             None \<Rightarrow> None
           | Some (res, b, q) \<Rightarrow> Some ((retval, err, buf') # res, b, q)))"

text \<open>
  A descriptor that gives the same answer to every call; and one that answers its next
  \<^verbatim>\<open>read\<close> calls as listed and then has nothing more: every later call would
  block.
\<close>

definition always :: "'a \<Rightarrow> 'a stream" where
  "always x = sconst x"

definition feed :: "read_result list \<Rightarrow> read_result stream" where
  "feed rs = rs @- always (RFail EAGAIN)"

definition every_fd :: "'a \<Rightarrow> nat \<Rightarrow> 'a" where
  "every_fd s fd = s"

text \<open>The bytes among the listed answers, in order.\<close>

fun bytes_of :: "read_result list \<Rightarrow> string" where
  "bytes_of [] = []"
| "bytes_of (RByte c # rs) = c # bytes_of rs"
| "bytes_of (r # rs) = bytes_of rs"

text \<open>An answer of a live pipe: a byte, or nothing yet.\<close>

definition delivery :: "read_result \<Rightarrow> bool" where
  "delivery r = (case r of RByte c \<Rightarrow> True | REof \<Rightarrow> False | RFail e \<Rightarrow> e = EAGAIN)"

text \<open>
  The newline-terminated lines of a byte sequence, the first one continuing what is
  already accumulated, and what is left after the last newline.
\<close>

fun complete_lines :: "string \<Rightarrow> string \<Rightarrow> string list" where
  "complete_lines acc [] = []"
| "complete_lines acc (c # cs) =
     (if c = newline then (acc @ [c]) # complete_lines [] cs else complete_lines (acc @ [c]) cs)"

fun partial_line :: "string \<Rightarrow> string \<Rightarrow> string" where
  "partial_line acc [] = acc"
| "partial_line acc (c # cs) =
     (if c = newline then partial_line [] cs else partial_line (acc @ [c]) cs)"

text \<open>The buffers of the calls that returned true.\<close>

definition reported :: "(bool \<times> bool \<times> string) list \<Rightarrow> string list" where
  "reported res = map (\<lambda>r. snd (snd r)) (filter fst res)"

text \<open>What a call of \<^verbatim>\<open>GetLine\<close> hands back to its caller.\<close>

definition outcome :: "(bool \<times> bool \<times> string \<times> process) option \<Rightarrow> (bool \<times> bool \<times> string) option" where
  "outcome y = map_option (\<lambda>(r, e, b, q). (r, e, b)) y"

text \<open>
  What a result of the \<^verbatim>\<open>while\<close> loop of \<^verbatim>\<open>GetLine\<close> says about the call: the bytes
  appended, the reads consumed and the flag.
\<close>

definition loop_post ::
  "nat \<Rightarrow> string \<Rightarrow> process \<Rightarrow> bool \<times> int \<times> string \<times> process \<Rightarrow> bool" where
  "loop_post fd buf p y =
     (case y of (r, rrv, b, q) \<Rightarrow>
        \<exists>bs. newline \<notin> set bs \<and>
          (if r then b = buf @ bs @ [newline] \<and> rrv = 1 \<and> needs_a_reset q \<and>
                     reads p fd = map RByte (bs @ [newline]) @- reads q fd \<and>
                     trace q = trace p @ map (EvRead fd) (map RByte (bs @ [newline]))
           else b = buf @ bs \<and> rrv \<le> 0 \<and> needs_a_reset q = needs_a_reset p \<and>
                (\<exists>r0. (\<forall>c. r0 \<noteq> RByte c) \<and> reads p fd = map RByte bs @- r0 ## reads q fd \<and>
                   trace q = trace p @ map (EvRead fd) (map RByte bs @ [r0]))))"

text \<open>The strings handed to \<^verbatim>\<open>write\<close> on a descriptor, oldest first.\<close>

fun written :: "nat \<Rightarrow> event list \<Rightarrow> string list" where
  "written fd [] = []"
| "written fd (EvWrite fd' s r # es) = (if fd' = fd then s # written fd es else written fd es)"
| "written fd (e # es) = written fd es"

text \<open>
  The process at the moment a pass of the loop calls \<^verbatim>\<open>GetLine\<close>: after the
  \<^verbatim>\<open>write\<close> and the \<^verbatim>\<open>AddLine\<close> of the outbound text.
\<close>

definition polled :: "nat list \<Rightarrow> nat list \<Rightarrow> main_locals \<times> process \<Rightarrow> process" where
  "polled tc fc st =
     (case st of (m, p) \<Rightarrow>
        AddLine tx_window (c_str (outbound (message_counter m)))
          (snd (write_sys (tc ! WRITE_SIDE) (outbound (message_counter m)) p)))"

text \<open>
  A descriptor that answers its next \<^verbatim>\<open>read\<close> calls as listed and is then at end of
  stream: the other side has closed the pipe.
\<close>

definition closing :: "read_result list \<Rightarrow> read_result stream" where
  "closing rs = rs @- always REof"

text \<open>A pass that ran to its end without \<^verbatim>\<open>break\<close>: the loop goes on.\<close>

definition continues :: "pass option \<Rightarrow> bool" where
  "continues y = (case y of Some (Passed brk m p) \<Rightarrow> \<not> brk | _ \<Rightarrow> False)"

text \<open>What the loop has handed to \<^verbatim>\<open>write\<close> when it stops or runs out of passes.\<close>

definition final_written ::
  "nat \<Rightarrow> (loop_status \<times> main_locals \<times> process) option \<Rightarrow> string list" where
  "final_written fd y = (case y of None \<Rightarrow> [] | Some (st, m, p) \<Rightarrow> written fd (trace p))"

text \<open>
  The descriptors of a process started from a shell: standard input, output and error
  on the terminal, nothing else open.
\<close>

definition stdio :: fd_table where
  "stdio = (\<lambda>fd. if fd < 3 then Some Terminal else None)"

text \<open>The same with standard input closed, as after \<^verbatim>\<open>parent <&-\<close> in a shell.\<close>

definition no_stdin :: fd_table where
  "no_stdin = (\<lambda>fd. if fd = 1 \<or> fd = 2 then Some Terminal else None)"

section \<open>Facts about GetLine\<close>

lemma consume_simps [simp]:
  "reads (consume fd p) = (reads p)(fd := stl (reads p fd))"
  "writes (consume fd p) = writes p"
  "needs_a_reset (consume fd p) = needs_a_reset p"
  "trace (consume fd p) = trace p @ [EvRead fd (shd (reads p fd))]"
  "errno (consume fd p) = (case shd (reads p fd) of RFail e \<Rightarrow> e | _ \<Rightarrow> errno p)"
  by (simp_all add: consume_def read_sys_def Let_def split: read_result.split)

lemma read_sys_cases:
  "read_sys fd p =
     (case shd (reads p fd) of RByte c \<Rightarrow> (1, Some c, consume fd p)
        | REof \<Rightarrow> (0, None, consume fd p)
        | RFail e \<Rightarrow> (- 1, None, consume fd p))"
  by (simp add: consume_def read_sys_def Let_def split: read_result.split)

lemma read_sys_stores:
  "fst (read_sys fd p) = 1 \<longleftrightarrow> (\<exists>c. fst (snd (read_sys fd p)) = Some c)"
  by (simp add: read_sys_cases split: read_result.split)

lemma GetLine_loop_byte:
  "shd (reads p fd) = RByte c \<Longrightarrow> c \<noteq> newline \<Longrightarrow>
   GetLine_loop fd buf p = GetLine_loop fd (buf @ [c]) (consume fd p)"
  by (subst GetLine_loop.simps) (simp add: read_sys_cases)

lemma GetLine_loop_newline:
  "shd (reads p fd) = RByte newline \<Longrightarrow>
   GetLine_loop fd buf p = Some (True, 1, buf @ [newline], (consume fd p)\<lparr>needs_a_reset := True\<rparr>)"
  by (subst GetLine_loop.simps) (simp add: read_sys_cases)

lemma GetLine_loop_eof:
  "shd (reads p fd) = REof \<Longrightarrow> GetLine_loop fd buf p = Some (False, 0, buf, consume fd p)"
  by (subst GetLine_loop.simps) (simp add: read_sys_cases)

lemma GetLine_loop_fail:
  "shd (reads p fd) = RFail e \<Longrightarrow> GetLine_loop fd buf p = Some (False, - 1, buf, consume fd p)"
  by (subst GetLine_loop.simps) (simp add: read_sys_cases)

lemma GetLine_reset:
  "needs_a_reset p \<Longrightarrow> GetLine fd buf p = GetLine fd [] (p\<lparr>needs_a_reset := False\<rparr>)"
  by (simp add: GetLine_def)

lemma GetLine_byte:
  "\<not> needs_a_reset p \<Longrightarrow> shd (reads p fd) = RByte c \<Longrightarrow> c \<noteq> newline \<Longrightarrow>
   GetLine fd buf p = GetLine fd (buf @ [c]) (consume fd p)"
  by (simp add: GetLine_def GetLine_loop_byte [of p fd c buf])

lemma GetLine_newline:
  "\<not> needs_a_reset p \<Longrightarrow> shd (reads p fd) = RByte newline \<Longrightarrow>
   GetLine fd buf p =
     Some (True, False, buf @ [newline], (consume fd p)\<lparr>needs_a_reset := True\<rparr>)"
  by (simp add: GetLine_def GetLine_loop_newline)

lemma GetLine_eof:
  "\<not> needs_a_reset p \<Longrightarrow> shd (reads p fd) = REof \<Longrightarrow>
   GetLine fd buf p = Some (False, errno p \<noteq> EAGAIN, buf, consume fd p)"
  by (simp add: GetLine_def GetLine_loop_eof)

lemma GetLine_fail:
  "\<not> needs_a_reset p \<Longrightarrow> shd (reads p fd) = RFail e \<Longrightarrow>
   GetLine fd buf p = Some (False, e \<noteq> EAGAIN, buf, consume fd p)"
  by (simp add: GetLine_def GetLine_loop_fail)

lemma always_simps [simp]: "shd (always x) = x" "stl (always x) = always x"
  by (simp_all add: always_def)

lemma feed_simps [simp]:
  "shd (feed []) = RFail EAGAIN" "stl (feed []) = feed []"
  "shd (feed (r # rs)) = r" "stl (feed (r # rs)) = feed rs"
  by (simp_all add: feed_def)

lemma reported_simps [simp]:
  "reported [] = []"
  "reported ((True, e, b) # res) = b # reported res"
  "reported ((False, e, b) # res) = reported res"
  by (simp_all add: reported_def)

lemma GetLine_calls_reset:
  "needs_a_reset p \<Longrightarrow>
   GetLine_calls (Suc n) fd buf p = GetLine_calls (Suc n) fd [] (p\<lparr>needs_a_reset := False\<rparr>)"
  by (simp add: GetLine_reset [of p fd buf])

lemma GetLine_calls_idle:
  "\<not> needs_a_reset p \<Longrightarrow> reads p fd = feed [] \<Longrightarrow>
   \<exists>res q. GetLine_calls n fd buf p = Some (res, buf, q) \<and> reported res = [] \<and>
     (\<forall>r\<in>set res. \<not> fst (snd r)) \<and> \<not> needs_a_reset q \<and> reads q fd = feed []"
proof (induction n arbitrary: p)
  case 0
  then show ?case by simp
next
  case (Suc n)
  have g: "GetLine fd buf p = Some (False, False, buf, consume fd p)"
    using Suc.prems by (simp add: GetLine_fail [of p fd EAGAIN])
  have "\<not> needs_a_reset (consume fd p)" "reads (consume fd p) fd = feed []"
    using Suc.prems by simp_all
  from Suc.IH [OF this] obtain res q where
    "GetLine_calls n fd buf (consume fd p) = Some (res, buf, q)" "reported res = []"
    "\<forall>r\<in>set res. \<not> fst (snd r)" "\<not> needs_a_reset q" "reads q fd = feed []"
    by blast
  then show ?case using g by simp
qed

lemma GetLine_calls_script_aux:
  "\<not> needs_a_reset p \<Longrightarrow> reads p fd = feed rs \<Longrightarrow> list_all delivery rs \<Longrightarrow> length rs < n \<Longrightarrow>
   \<exists>res q. GetLine_calls n fd buf p = Some (res, partial_line buf (bytes_of rs), q) \<and>
     reported res = complete_lines buf (bytes_of rs) \<and>
     (\<forall>r\<in>set res. \<not> fst (snd r)) \<and> \<not> needs_a_reset q \<and> reads q fd = feed []"
proof (induction rs arbitrary: n buf p)
  case Nil
  then show ?case using GetLine_calls_idle [of p fd n buf] by simp
next
  case (Cons r rs)
  from Cons.prems obtain m where n: "n = Suc m" and m: "length rs < m"
    by (cases n) auto
  have hd: "shd (reads p fd) = r" and tl: "reads (consume fd p) fd = feed rs"
    using Cons.prems by simp_all
  have all: "list_all delivery rs" and r: "delivery r"
    using Cons.prems by simp_all
  have nf: "\<not> needs_a_reset (consume fd p)"
    using Cons.prems by simp
  show ?case
  proof (cases r)
    case (RByte c)
    show ?thesis
    proof (cases "c = newline")
      case True
      let ?p1 = "(consume fd p)\<lparr>needs_a_reset := True\<rparr>"
      let ?p2 = "(consume fd p)\<lparr>needs_a_reset := False\<rparr>"
      have g: "GetLine fd buf p = Some (True, False, buf @ [newline], ?p1)"
        using Cons.prems(1) hd RByte True by (simp add: GetLine_newline)
      from m obtain k where k: "m = Suc k" by (cases m) auto
      have c: "GetLine_calls m fd (buf @ [newline]) ?p1 = GetLine_calls m fd [] ?p2"
        unfolding k using GetLine_calls_reset [of ?p1 k fd "buf @ [newline]"] by simp
      have "\<not> needs_a_reset ?p2" "reads ?p2 fd = feed rs"
        using tl by simp_all
      from Cons.IH [OF this all m, of "[]"] obtain res q where
        "GetLine_calls m fd [] ?p2 = Some (res, partial_line [] (bytes_of rs), q)"
        "reported res = complete_lines [] (bytes_of rs)"
        "\<forall>r\<in>set res. \<not> fst (snd r)" "\<not> needs_a_reset q" "reads q fd = feed []"
        by blast
      then show ?thesis using g c n RByte True by simp
    next
      case False
      have g: "GetLine fd buf p = GetLine fd (buf @ [c]) (consume fd p)"
        using Cons.prems(1) hd RByte False by (simp add: GetLine_byte)
      have "length rs < n" using n m by simp
      from Cons.IH [OF nf tl all this, of "buf @ [c]"] obtain res q where
        "GetLine_calls n fd (buf @ [c]) (consume fd p)
           = Some (res, partial_line (buf @ [c]) (bytes_of rs), q)"
        "reported res = complete_lines (buf @ [c]) (bytes_of rs)"
        "\<forall>r\<in>set res. \<not> fst (snd r)" "\<not> needs_a_reset q" "reads q fd = feed []"
        by blast
      moreover have "GetLine_calls n fd buf p = GetLine_calls n fd (buf @ [c]) (consume fd p)"
        unfolding n using g by simp
      ultimately show ?thesis using RByte False by simp
    qed
  next
    case REof
    then show ?thesis using r by (simp add: delivery_def)
  next
    case (RFail e)
    then have e: "e = EAGAIN" using r by (simp add: delivery_def)
    have g: "GetLine fd buf p = Some (False, False, buf, consume fd p)"
      using Cons.prems(1) hd RFail e by (simp add: GetLine_fail [of p fd EAGAIN])
    from Cons.IH [OF nf tl all m, of buf] obtain res q where
      "GetLine_calls m fd buf (consume fd p) = Some (res, partial_line buf (bytes_of rs), q)"
      "reported res = complete_lines buf (bytes_of rs)"
      "\<forall>r\<in>set res. \<not> fst (snd r)" "\<not> needs_a_reset q" "reads q fd = feed []"
      by blast
    then show ?thesis using g n RFail by simp
  qed
qed

lemma loop_post_byte:
  assumes "loop_post fd (buf @ [c]) (consume fd p) y" "shd (reads p fd) = RByte c" "c \<noteq> newline"
  shows "loop_post fd buf p y"
proof -
  obtain r rrv b q where y: "y = (r, rrv, b, q)" by (cases y)
  from assms(1) obtain bs where bs: "newline \<notin> set bs"
    "if r then b = (buf @ [c]) @ bs @ [newline] \<and> rrv = 1 \<and> needs_a_reset q \<and>
               reads (consume fd p) fd = map RByte (bs @ [newline]) @- reads q fd \<and>
               trace q = trace (consume fd p) @ map (EvRead fd) (map RByte (bs @ [newline]))
     else b = (buf @ [c]) @ bs \<and> rrv \<le> 0 \<and> needs_a_reset q = needs_a_reset (consume fd p) \<and>
          (\<exists>r0. (\<forall>c. r0 \<noteq> RByte c) \<and> reads (consume fd p) fd = map RByte bs @- r0 ## reads q fd \<and>
             trace q = trace (consume fd p) @ map (EvRead fd) (map RByte bs @ [r0]))"
    unfolding loop_post_def y by auto
  have p: "reads p fd = RByte c ## stl (reads p fd)"
    using assms(2) by (metis stream.collapse)
  have "newline \<notin> set (c # bs)" using bs(1) assms(3) by simp
  moreover have "if r then b = buf @ (c # bs) @ [newline] \<and> rrv = 1 \<and> needs_a_reset q \<and>
               reads p fd = map RByte ((c # bs) @ [newline]) @- reads q fd \<and>
               trace q = trace p @ map (EvRead fd) (map RByte ((c # bs) @ [newline]))
     else b = buf @ (c # bs) \<and> rrv \<le> 0 \<and> needs_a_reset q = needs_a_reset p \<and>
          (\<exists>r0. (\<forall>c. r0 \<noteq> RByte c) \<and> reads p fd = map RByte (c # bs) @- r0 ## reads q fd \<and>
             trace q = trace p @ map (EvRead fd) (map RByte (c # bs) @ [r0]))"
  proof (cases r)
    case True
    then have s: "stl (reads p fd) = map RByte (bs @ [newline]) @- reads q fd"
      and t: "b = buf @ (c # bs) @ [newline]" "rrv = 1" "needs_a_reset q"
        "trace q = trace p @ map (EvRead fd) (map RByte ((c # bs) @ [newline]))"
      using bs(2) assms(2) by simp_all
    have "reads p fd = map RByte ((c # bs) @ [newline]) @- reads q fd"
      by (subst p) (simp add: s)
    then show ?thesis using True t by simp
  next
    case False
    then obtain r0 where r0: "\<forall>c. r0 \<noteq> RByte c"
      and s: "stl (reads p fd) = map RByte bs @- r0 ## reads q fd"
      and t: "b = buf @ (c # bs)" "rrv \<le> 0" "needs_a_reset q = needs_a_reset p"
        "trace q = trace p @ map (EvRead fd) (map RByte (c # bs) @ [r0])"
      using bs(2) assms(2) by auto
    have "reads p fd = map RByte (c # bs) @- r0 ## reads q fd"
      by (subst p) (simp add: s)
    then show ?thesis using False t r0 by auto
  qed
  ultimately show ?thesis
    unfolding loop_post_def y by blast
qed

lemma loop_post_stop:
  assumes "shd (reads p fd) = r0" "\<forall>c. r0 \<noteq> RByte c" "rrv \<le> 0"
  shows "loop_post fd buf p (False, rrv, buf, consume fd p)"
proof -
  have "reads p fd = r0 ## stl (reads p fd)"
    using assms(1) by (metis stream.collapse)
  then have "reads p fd = map RByte [] @- r0 ## reads (consume fd p) fd"
    by simp
  moreover have "trace (consume fd p) = trace p @ map (EvRead fd) (map RByte [] @ [r0])"
    using assms(1) by simp
  ultimately show ?thesis
    unfolding loop_post_def using assms(2,3) by (auto intro!: exI [of _ "[]"])
qed

lemma loop_post_newline:
  assumes "shd (reads p fd) = RByte newline"
  shows "loop_post fd buf p (True, 1, buf @ [newline], (consume fd p)\<lparr>needs_a_reset := True\<rparr>)"
proof -
  have "reads p fd = RByte newline ## stl (reads p fd)"
    using assms(1) by (metis stream.collapse)
  then have "reads p fd = map RByte ([] @ [newline]) @- reads ((consume fd p)\<lparr>needs_a_reset := True\<rparr>) fd"
    by simp
  moreover have "trace ((consume fd p)\<lparr>needs_a_reset := True\<rparr>)
      = trace p @ map (EvRead fd) (map RByte ([] @ [newline]))"
    using assms by simp
  ultimately show ?thesis
    unfolding loop_post_def by (auto intro!: exI [of _ "[]"])
qed

lemma GetLine_loop_sound:
  assumes "GetLine_loop fd buf p = Some y"
  shows "loop_post fd buf p y"
proof (rule GetLine_loop.raw_induct [where P = loop_post, OF _ assms])
  fix loop fd buf p y
  assume IH: "\<And>fd buf p y. loop fd buf p = Some y \<Longrightarrow> loop_post fd buf p y"
    and body: "(case read_sys fd p of
        (read_return_value, c, p') \<Rightarrow>
          if read_return_value = 1 then
            (let buffer' = buf @ [the c] in
             if the c = newline
             then Some (True, read_return_value, buffer', p'\<lparr>needs_a_reset := True\<rparr>)
             else loop fd buffer' p')
          else Some (False, read_return_value, buf, p')) = Some y"
  show "loop_post fd buf p y"
  proof (cases "shd (reads p fd)")
    case (RByte c)
    show ?thesis
    proof (cases "c = newline")
      case True
      then have "y = (True, 1, buf @ [newline], (consume fd p)\<lparr>needs_a_reset := True\<rparr>)"
        using body RByte by (simp add: read_sys_cases)
      then show ?thesis using loop_post_newline RByte True by simp
    next
      case False
      then have "loop fd (buf @ [c]) (consume fd p) = Some y"
        using body RByte by (simp add: read_sys_cases)
      then have "loop_post fd (buf @ [c]) (consume fd p) y"
        by (rule IH)
      then show ?thesis using RByte False by (rule loop_post_byte)
    qed
  next
    case REof
    then have "y = (False, 0, buf, consume fd p)"
      using body by (simp add: read_sys_cases)
    then show ?thesis using loop_post_stop [of p fd REof 0 buf] REof by simp
  next
    case (RFail e)
    then have "y = (False, - 1, buf, consume fd p)"
      using body by (simp add: read_sys_cases)
    then show ?thesis using loop_post_stop [of p fd "RFail e" "- 1" buf] RFail by simp
  qed
qed

lemma GetLine_sound:
  assumes "GetLine fd buf p = Some (r, e, b, q)"
  shows "\<exists>rrv. loop_post fd (if needs_a_reset p then [] else buf) (p\<lparr>needs_a_reset := False\<rparr>)
           (r, rrv, b, q) \<and> e = (rrv \<le> 0 \<and> errno q \<noteq> EAGAIN)"
proof -
  have eq: "\<not> needs_a_reset p \<Longrightarrow> p\<lparr>needs_a_reset := False\<rparr> = p"
    by (cases p) simp
  from assms obtain rrv where
    "GetLine_loop fd (if needs_a_reset p then [] else buf) (p\<lparr>needs_a_reset := False\<rparr>)
       = Some (r, rrv, b, q)" "e = (rrv \<le> 0 \<and> errno q \<noteq> EAGAIN)"
    by (cases "needs_a_reset p") (auto simp: GetLine_def eq split: option.splits)
  then show ?thesis using GetLine_loop_sound by blast
qed

lemma GetLine_line:
  assumes "GetLine fd buf p = Some (True, e, b, q)"
  shows "\<exists>bs. newline \<notin> set bs \<and> b = (if needs_a_reset p then [] else buf) @ bs @ [newline] \<and>
           needs_a_reset q \<and> \<not> e \<and> reads p fd = map RByte (bs @ [newline]) @- reads q fd"
  using GetLine_sound [OF assms] unfolding loop_post_def by auto

lemma GetLine_no_line:
  assumes "GetLine fd buf p = Some (False, e, b, q)"
  shows "\<exists>bs. newline \<notin> set bs \<and> b = (if needs_a_reset p then [] else buf) @ bs \<and>
           \<not> needs_a_reset q"
  using GetLine_sound [OF assms] unfolding loop_post_def by auto

lemma GetLine_flag:
  assumes "GetLine fd buf p = Some (r, e, b, q)"
  shows "needs_a_reset q = r"
  using GetLine_line [of fd buf p e b q] GetLine_no_line [of fd buf p e b q] assms
  by (cases r) auto

lemma GetLine_calls_lines:
  "GetLine_calls n fd buf p = Some (res, b, q) \<Longrightarrow> needs_a_reset p \<or> newline \<notin> set buf \<Longrightarrow>
   (\<forall>l\<in>set (reported res). \<exists>x. l = x @ [newline] \<and> newline \<notin> set x) \<and>
   (needs_a_reset q \<or> newline \<notin> set b)"
proof (induction n arbitrary: buf p res)
  case 0
  then show ?case by auto
next
  case (Suc n)
  from Suc.prems(1) obtain r e buf' p' res' where
    g: "GetLine fd buf p = Some (r, e, buf', p')"
    and c: "GetLine_calls n fd buf' p' = Some (res', b, q)"
    and res: "res = (r, e, buf') # res'"
    by (auto split: option.splits)
  have nl: "newline \<notin> set (if needs_a_reset p then [] else buf)"
    using Suc.prems(2) by auto
  show ?case
  proof (cases r)
    case True
    with g have "GetLine fd buf p = Some (True, e, buf', p')" by simp
    from GetLine_line [OF this] obtain bs where bs: "newline \<notin> set bs"
      "buf' = (if needs_a_reset p then [] else buf) @ bs @ [newline]" "needs_a_reset p'"
      by blast
    have "\<exists>x. buf' = x @ [newline] \<and> newline \<notin> set x"
      using bs nl by (intro exI [of _ "(if needs_a_reset p then [] else buf) @ bs"]) auto
    moreover from Suc.IH [OF c] bs(3) have
      "(\<forall>l\<in>set (reported res'). \<exists>x. l = x @ [newline] \<and> newline \<notin> set x) \<and>
       (needs_a_reset q \<or> newline \<notin> set b)" by simp
    ultimately show ?thesis using res True by simp
  next
    case False
    with g have "GetLine fd buf p = Some (False, e, buf', p')" by simp
    from GetLine_no_line [OF this] obtain bs where bs: "newline \<notin> set bs"
      "buf' = (if needs_a_reset p then [] else buf) @ bs"
      by blast
    then have "newline \<notin> set buf'" using nl by auto
    with Suc.IH [OF c] have
      "(\<forall>l\<in>set (reported res'). \<exists>x. l = x @ [newline] \<and> newline \<notin> set x) \<and>
       (needs_a_reset q \<or> newline \<notin> set b)" by simp
    then show ?thesis using res False by simp
  qed
qed

lemma complete_lines_append:
  "newline \<notin> set xs \<Longrightarrow>
   complete_lines acc (xs @ newline # ys) = (acc @ xs @ [newline]) # complete_lines [] ys"
  by (induction xs arbitrary: acc) auto

lemma complete_lines_none: "newline \<notin> set xs \<Longrightarrow> complete_lines acc xs = []"
  by (induction xs arbitrary: acc) auto

lemma partial_line_append:
  "newline \<notin> set xs \<Longrightarrow> partial_line acc (xs @ newline # ys) = partial_line [] ys"
  by (induction xs arbitrary: acc) auto

lemma partial_line_none: "newline \<notin> set xs \<Longrightarrow> partial_line acc xs = acc @ xs"
  by (induction xs arbitrary: acc) auto

lemma GetLine_calls_script:
  assumes "reads p fd = feed rs" "list_all delivery rs" "length rs < n"
  shows "\<exists>res q. GetLine_calls n fd buf p
            = Some (res, partial_line (if needs_a_reset p then [] else buf) (bytes_of rs), q) \<and>
     reported res = complete_lines (if needs_a_reset p then [] else buf) (bytes_of rs) \<and>
     (\<forall>r\<in>set res. \<not> fst (snd r)) \<and> \<not> needs_a_reset q \<and> reads q fd = feed []"
proof (cases "needs_a_reset p")
  case True
  from assms(3) obtain m where n: "n = Suc m" by (cases n) auto
  have "GetLine_calls n fd buf p = GetLine_calls n fd [] (p\<lparr>needs_a_reset := False\<rparr>)"
    unfolding n using True by (rule GetLine_calls_reset)
  moreover have "\<not> needs_a_reset (p\<lparr>needs_a_reset := False\<rparr>)"
    "reads (p\<lparr>needs_a_reset := False\<rparr>) fd = feed rs"
    using assms(1) by simp_all
  note GetLine_calls_script_aux [OF this assms(2,3), of "[]"]
  ultimately show ?thesis using True by simp
next
  case False
  from GetLine_calls_script_aux [OF False assms, of buf] show ?thesis
    using False by simp
qed

lemma outcome_Some [simp]: "outcome (Some (r, e, b, q)) = Some (r, e, b)"
  by (simp add: outcome_def)

lemma GetLine_erases: "needs_a_reset p \<Longrightarrow> GetLine fd buf p = GetLine fd [] p"
  by (simp add: GetLine_def)

section \<open>Facts about the loop\<close>

lemma written_append: "written fd (xs @ ys) = written fd xs @ written fd ys"
  by (induction fd xs rule: written.induct) auto

lemma written_reads [simp]: "written fd (map (EvRead fd') rs) = []"
  by (induction rs) auto

lemma write_sys_simps [simp]:
  "reads (snd (write_sys fd s p)) = reads p"
  "needs_a_reset (snd (write_sys fd s p)) = needs_a_reset p"
  "writes (snd (write_sys fd s p)) = (writes p)(fd := stl (writes p fd))"
  "trace (snd (write_sys fd s p)) = trace p @ [EvWrite fd s (fst (write_sys fd s p))]"
  "errno (snd (write_sys fd s p)) = (case shd (writes p fd) of WFail e \<Rightarrow> e | _ \<Rightarrow> errno p)"
  by (simp_all add: write_sys_def Let_def split: write_result.split)

lemma write_sys_returns:
  "fst (write_sys fd s p) = None \<longleftrightarrow> shd (writes p fd) = WSigpipe"
  by (simp add: write_sys_def Let_def split: write_result.split)

lemma display_simps [simp]:
  "reads (AddLine w s p) = reads p" "writes (AddLine w s p) = writes p"
  "needs_a_reset (AddLine w s p) = needs_a_reset p" "errno (AddLine w s p) = errno p"
  "trace (AddLine w s p) = trace p @ [EvAddLine w s]"
  "reads (Refresh p) = reads p" "writes (Refresh p) = writes p"
  "needs_a_reset (Refresh p) = needs_a_reset p" "errno (Refresh p) = errno p"
  "trace (Refresh p) = trace p @ [EvRefresh]"
  "reads (sleep_for n p) = reads p" "writes (sleep_for n p) = writes p"
  "needs_a_reset (sleep_for n p) = needs_a_reset p" "errno (sleep_for n p) = errno p"
  "trace (sleep_for n p) = trace p @ [EvSleep n]"
  by (simp_all add: AddLine_def Refresh_def sleep_for_def)

lemma GetLine_trace:
  assumes "GetLine fd buf p = Some (r, e, b, q)"
  shows "\<exists>rs. rs \<noteq> [] \<and> trace q = trace p @ map (EvRead fd) rs"
proof -
  from GetLine_sound [OF assms] obtain rrv where
    "loop_post fd (if needs_a_reset p then [] else buf) (p\<lparr>needs_a_reset := False\<rparr>) (r, rrv, b, q)"
    by blast
  then obtain bs where bs:
    "if r then trace q = trace p @ map (EvRead fd) (map RByte (bs @ [newline]))
     else (\<exists>r0. trace q = trace p @ map (EvRead fd) (map RByte bs @ [r0]))"
    unfolding loop_post_def by (cases r) auto
  show ?thesis
  proof (cases r)
    case True
    with bs have "trace q = trace p @ map (EvRead fd) (map RByte (bs @ [newline]))"
      by simp
    moreover have "map RByte (bs @ [newline]) \<noteq> []" by simp
    ultimately show ?thesis by blast
  next
    case False
    with bs obtain r0 where "trace q = trace p @ map (EvRead fd) (map RByte bs @ [r0])"
      by auto
    moreover have "map RByte bs @ [r0] \<noteq> []" by simp
    ultimately show ?thesis by blast
  qed
qed

lemma polled_simps [simp]:
  "reads (polled tc fc (m, p)) = reads p"
  "needs_a_reset (polled tc fc (m, p)) = needs_a_reset p"
  "writes (polled tc fc (m, p)) =
     (writes p)(tc ! WRITE_SIDE := stl (writes p (tc ! WRITE_SIDE)))"
  "errno (polled tc fc (m, p)) =
     (case shd (writes p (tc ! WRITE_SIDE)) of WFail e \<Rightarrow> e | _ \<Rightarrow> errno p)"
  "trace (polled tc fc (m, p)) =
     trace p @ [EvWrite (tc ! WRITE_SIDE) (outbound (message_counter m))
                  (fst (write_sys (tc ! WRITE_SIDE) (outbound (message_counter m)) p)),
                EvAddLine tx_window (c_str (outbound (message_counter m)))]"
  by (simp_all add: polled_def)

lemma loop_body_unfold:
  "loop_body tc fc (m, p) =
     (case fst (write_sys (tc ! WRITE_SIDE) (outbound (message_counter m)) p) of
        None \<Rightarrow>
          Some (Signalled (m\<lparr>message_counter := message_counter m + 1\<rparr>)
                  (snd (write_sys (tc ! WRITE_SIDE) (outbound (message_counter m)) p)))
      | Some ret \<Rightarrow>
          (case GetLine (fc ! READ_SIDE) (buffer m) (polled tc fc (m, p)) of
             None \<Rightarrow> None
           | Some (r, e, b, q) \<Rightarrow>
               Some (Passed e
                 (m\<lparr>message_counter := message_counter m + 1, buffer := b, error := e\<rparr>)
                 (if e then (if r then AddLine rx_window (c_str b) q else q)
                  else sleep_for 250 (Refresh (if r then AddLine rx_window (c_str b) q else q))))))"
  by (cases "write_sys (tc ! WRITE_SIDE) (outbound (message_counter m)) p")
    (simp add: loop_body_def polled_def Let_def split: option.split)

lemma loop_body_signal:
  assumes "shd (writes p (tc ! WRITE_SIDE)) = WSigpipe"
  shows "loop_body tc fc (m, p) =
           Some (Signalled (m\<lparr>message_counter := message_counter m + 1\<rparr>)
                   (snd (write_sys (tc ! WRITE_SIDE) (outbound (message_counter m)) p)))"
proof -
  have "fst (write_sys (tc ! WRITE_SIDE) (outbound (message_counter m)) p) = None"
    using assms by (simp add: write_sys_returns)
  then show ?thesis
    by (simp add: loop_body_unfold)
qed

lemma loop_body_GetLine:
  assumes "GetLine (fc ! READ_SIDE) (buffer m) (polled tc fc (m, p)) = Some (r, e, b, q)"
    and "shd (writes p (tc ! WRITE_SIDE)) \<noteq> WSigpipe"
  shows "loop_body tc fc (m, p) =
           Some (Passed e (m\<lparr>message_counter := message_counter m + 1, buffer := b, error := e\<rparr>)
             (if e then (if r then AddLine rx_window (c_str b) q else q)
              else sleep_for 250 (Refresh (if r then AddLine rx_window (c_str b) q else q))))"
proof -
  obtain ret where "fst (write_sys (tc ! WRITE_SIDE) (outbound (message_counter m)) p) = Some ret"
    using assms(2) write_sys_returns [of "tc ! WRITE_SIDE" "outbound (message_counter m)" p]
    by (cases "fst (write_sys (tc ! WRITE_SIDE) (outbound (message_counter m)) p)") auto
  then show ?thesis
    using assms(1) by (simp add: loop_body_unfold)
qed

lemma loop_body_Some:
  assumes "loop_body tc fc (m, p) = Some (Passed brk m' p')"
  shows "shd (writes p (tc ! WRITE_SIDE)) \<noteq> WSigpipe \<and>
         (\<exists>r b q. GetLine (fc ! READ_SIDE) (buffer m) (polled tc fc (m, p)) = Some (r, brk, b, q) \<and>
           m' = m\<lparr>message_counter := message_counter m + 1, buffer := b, error := brk\<rparr> \<and>
           p' = (if brk then (if r then AddLine rx_window (c_str b) q else q)
                 else sleep_for 250 (Refresh (if r then AddLine rx_window (c_str b) q else q))))"
proof (cases "shd (writes p (tc ! WRITE_SIDE)) = WSigpipe")
  case True
  from loop_body_signal [OF this] assms show ?thesis by simp
next
  case False
  show ?thesis
  proof (cases "GetLine (fc ! READ_SIDE) (buffer m) (polled tc fc (m, p))")
    case None
    obtain ret where "fst (write_sys (tc ! WRITE_SIDE) (outbound (message_counter m)) p) = Some ret"
      using False write_sys_returns [of "tc ! WRITE_SIDE" "outbound (message_counter m)" p]
      by (cases "fst (write_sys (tc ! WRITE_SIDE) (outbound (message_counter m)) p)") auto
    then have "loop_body tc fc (m, p) = None"
      using None by (simp add: loop_body_unfold)
    with assms show ?thesis by simp
  next
    case (Some y)
    obtain r e b q where y: "y = (r, e, b, q)" by (cases y)
    from loop_body_GetLine [OF Some [unfolded y] False] assms False
    show ?thesis unfolding Some y by auto
  qed
qed

lemma loop_body_trace:
  assumes "loop_body tc fc (m, p) = Some (Passed brk m' p')"
  shows "\<exists>ret rs tl. rs \<noteq> [] \<and>
           trace p' = trace p @
             EvWrite (tc ! WRITE_SIDE) (outbound (message_counter m)) ret #
             EvAddLine tx_window (c_str (outbound (message_counter m))) #
             map (EvRead (fc ! READ_SIDE)) rs @ tl \<and>
           (\<forall>ev\<in>set tl. (\<exists>s. ev = EvAddLine rx_window s) \<or> ev = EvRefresh \<or> ev = EvSleep 250)"
proof -
  from loop_body_Some [OF assms] obtain r b q where
    g: "GetLine (fc ! READ_SIDE) (buffer m) (polled tc fc (m, p)) = Some (r, brk, b, q)"
    and p': "p' = (if brk then (if r then AddLine rx_window (c_str b) q else q)
                 else sleep_for 250 (Refresh (if r then AddLine rx_window (c_str b) q else q)))"
    by blast
  from GetLine_trace [OF g] obtain rs where rs: "rs \<noteq> []"
    "trace q = trace (polled tc fc (m, p)) @ map (EvRead (fc ! READ_SIDE)) rs"
    by blast
  let ?tl = "(if r then [EvAddLine rx_window (c_str b)] else []) @
             (if brk then [] else [EvRefresh, EvSleep 250])"
  have "trace p' = trace p @
             EvWrite (tc ! WRITE_SIDE) (outbound (message_counter m))
               (fst (write_sys (tc ! WRITE_SIDE) (outbound (message_counter m)) p)) #
             EvAddLine tx_window (c_str (outbound (message_counter m))) #
             map (EvRead (fc ! READ_SIDE)) rs @ ?tl"
    using rs(2) by (simp add: p')
  moreover have "\<forall>ev\<in>set ?tl. (\<exists>s. ev = EvAddLine rx_window s) \<or> ev = EvRefresh \<or> ev = EvSleep 250"
    by simp
  ultimately show ?thesis using rs(1) by blast
qed

lemma loop_body_written:
  assumes "loop_body tc fc (m, p) = Some y"
  shows "written (tc ! WRITE_SIDE) (trace (pass_process y)) =
           written (tc ! WRITE_SIDE) (trace p) @ [outbound (message_counter m)]"
    and "message_counter (pass_locals y) = message_counter m + 1"
proof -
  show "written (tc ! WRITE_SIDE) (trace (pass_process y)) =
           written (tc ! WRITE_SIDE) (trace p) @ [outbound (message_counter m)]"
  proof (cases y)
    case (Signalled m' p')
    then have "shd (writes p (tc ! WRITE_SIDE)) = WSigpipe"
      using assms
      by (auto simp: loop_body_unfold split: option.splits dest: write_sys_returns [THEN iffD1])
    from loop_body_signal [OF this, of fc m] assms Signalled show ?thesis
      by (simp add: written_append)
  next
    case (Passed brk m' p')
    with assms have b: "loop_body tc fc (m, p) = Some (Passed brk m' p')" by simp
    from loop_body_trace [OF b] obtain ret rs tl where
      t: "trace p' = trace p @
               EvWrite (tc ! WRITE_SIDE) (outbound (message_counter m)) ret #
               EvAddLine tx_window (c_str (outbound (message_counter m))) #
               map (EvRead (fc ! READ_SIDE)) rs @ tl"
      and tl: "\<forall>ev\<in>set tl. (\<exists>s. ev = EvAddLine rx_window s) \<or> ev = EvRefresh \<or> ev = EvSleep 250"
      by blast
    have "written (tc ! WRITE_SIDE) tl = []"
      using tl by (induction tl) auto
    then show ?thesis
      by (simp add: Passed t written_append)
  qed
  show "message_counter (pass_locals y) = message_counter m + 1"
  proof (cases y)
    case (Signalled m' p')
    then have "shd (writes p (tc ! WRITE_SIDE)) = WSigpipe"
      using assms
      by (auto simp: loop_body_unfold split: option.splits dest: write_sys_returns [THEN iffD1])
    from loop_body_signal [OF this, of fc m] assms Signalled show ?thesis by simp
  next
    case (Passed brk m' p')
    with assms have "loop_body tc fc (m, p) = Some (Passed brk m' p')" by simp
    from loop_body_Some [OF this] Passed show ?thesis by auto
  qed
qed

lemma main_loop_written:
  "main_loop n tc fc (m, p) = Some (st, m', p') \<Longrightarrow>
   \<exists>k\<le>n. (st = Running \<longrightarrow> k = n) \<and> (st = Exited \<longrightarrow> 0 < k) \<and>
     message_counter m' = message_counter m + of_nat k \<and>
     written (tc ! WRITE_SIDE) (trace p') =
       written (tc ! WRITE_SIDE) (trace p) @
       map (\<lambda>i. outbound (message_counter m + of_nat i)) [0..<k]"
proof (induction n arbitrary: m p)
  case 0
  then show ?case by auto
next
  case (Suc n)
  from Suc.prems obtain y where b: "loop_body tc fc (m, p) = Some y"
    by (auto split: option.splits)
  note w = loop_body_written [OF b]
  have stop: ?case if "st \<noteq> Running" "m' = pass_locals y" "p' = pass_process y"
    using that w by (intro exI [of _ 1]) simp
  show ?case
  proof (cases y)
    case (Signalled m1 p1)
    with Suc.prems b have "st = Killed" "m' = m1" "p' = p1" by simp_all
    with Signalled stop show ?thesis by simp
  next
    case (Passed brk m1 p1)
    show ?thesis
    proof (cases brk)
      case True
      with Suc.prems b Passed have "st = Exited" "m' = m1" "p' = p1" by simp_all
      with Passed stop show ?thesis by simp
    next
      case False
      with Suc.prems b Passed have "main_loop n tc fc (m1, p1) = Some (st, m', p')" by simp
      from Suc.IH [OF this] obtain k where k: "k \<le> n" "st = Running \<longrightarrow> k = n"
        "message_counter m' = message_counter m1 + of_nat k"
        "written (tc ! WRITE_SIDE) (trace p') =
           written (tc ! WRITE_SIDE) (trace p1) @
           map (\<lambda>i. outbound (message_counter m1 + of_nat i)) [0..<k]"
        by blast
      have m1: "message_counter m1 = message_counter m + 1"
        and p1: "written (tc ! WRITE_SIDE) (trace p1) =
           written (tc ! WRITE_SIDE) (trace p) @ [outbound (message_counter m)]"
        using w Passed by simp_all
      have "map (\<lambda>i. outbound (message_counter m + of_nat i)) [0..<Suc k] =
            outbound (message_counter m) #
            map (\<lambda>i. outbound (message_counter m1 + of_nat i)) [0..<k]"
        by (simp add: map_upt_Suc m1 add.assoc del: upt_Suc)
      with k m1 p1 show ?thesis
        by (intro exI [of _ "Suc k"]) (simp add: add.assoc del: upt_Suc)
    qed
  qed
qed

lemma unset_flag: "\<not> needs_a_reset p \<Longrightarrow> p\<lparr>needs_a_reset := False\<rparr> = p"
  by (cases p) simp

lemma GetLine_would_block:
  assumes "shd (reads p fd) = RFail EAGAIN"
  shows "GetLine fd buf p =
           Some (False, False, (if needs_a_reset p then [] else buf),
                 consume fd (p\<lparr>needs_a_reset := False\<rparr>))"
proof (cases "needs_a_reset p")
  case True
  have "GetLine fd [] (p\<lparr>needs_a_reset := False\<rparr>) =
          Some (False, False, [], consume fd (p\<lparr>needs_a_reset := False\<rparr>))"
    using assms by (simp add: GetLine_fail [where e = EAGAIN])
  then show ?thesis using True by (simp add: GetLine_reset [of p fd buf])
next
  case False
  then show ?thesis using assms by (simp add: GetLine_fail [where e = EAGAIN] unset_flag)
qed

lemma GetLine_end_of_stream:
  assumes "shd (reads p fd) = REof"
  shows "GetLine fd buf p =
           Some (False, errno p \<noteq> EAGAIN, (if needs_a_reset p then [] else buf),
                 consume fd (p\<lparr>needs_a_reset := False\<rparr>))"
proof (cases "needs_a_reset p")
  case True
  have "GetLine fd [] (p\<lparr>needs_a_reset := False\<rparr>) =
          Some (False, errno p \<noteq> EAGAIN, [], consume fd (p\<lparr>needs_a_reset := False\<rparr>))"
    using assms by (simp add: GetLine_eof)
  then show ?thesis using True by (simp add: GetLine_reset [of p fd buf])
next
  case False
  then show ?thesis using assms by (simp add: GetLine_eof unset_flag)
qed

lemma loop_body_would_block:
  assumes "shd (reads p (fc ! READ_SIDE)) = RFail EAGAIN"
    and "shd (writes p (tc ! WRITE_SIDE)) \<noteq> WSigpipe"
  shows "\<exists>m' p'. loop_body tc fc (m, p) = Some (Passed False m' p') \<and> \<not> error m' \<and>
           reads p' = (reads p)(fc ! READ_SIDE := stl (reads p (fc ! READ_SIDE))) \<and>
           errno p' = EAGAIN \<and>
           writes p' = (writes p)(tc ! WRITE_SIDE := stl (writes p (tc ! WRITE_SIDE)))"
proof -
  have "shd (reads (polled tc fc (m, p)) (fc ! READ_SIDE)) = RFail EAGAIN"
    using assms by simp
  from loop_body_GetLine [OF GetLine_would_block [OF this] assms(2)]
  show ?thesis using assms by simp
qed

lemma main_loop_idle:
  "reads p (fc ! READ_SIDE) = feed [] \<Longrightarrow> writes p (tc ! WRITE_SIDE) = always WAll \<Longrightarrow>
   \<exists>m' p'. main_loop n tc fc (m, p) = Some (Running, m', p')"
proof (induction n arbitrary: m p)
  case 0
  then show ?case by simp
next
  case (Suc n)
  then have "shd (reads p (fc ! READ_SIDE)) = RFail EAGAIN"
    "shd (writes p (tc ! WRITE_SIDE)) \<noteq> WSigpipe" by simp_all
  from loop_body_would_block [OF this] obtain m1 p1 where
    b: "loop_body tc fc (m, p) = Some (Passed False m1 p1)"
    and r: "reads p1 = (reads p)(fc ! READ_SIDE := stl (reads p (fc ! READ_SIDE)))"
      "writes p1 = (writes p)(tc ! WRITE_SIDE := stl (writes p (tc ! WRITE_SIDE)))"
    by blast
  have "reads p1 (fc ! READ_SIDE) = feed []" "writes p1 (tc ! WRITE_SIDE) = always WAll"
    using r Suc.prems by simp_all
  from Suc.IH [OF this] b show ?case by simp
qed

lemma loop_body_closed:
  assumes "shd (reads p (fc ! READ_SIDE)) = REof" and "errno p = EAGAIN"
    and "shd (writes p (tc ! WRITE_SIDE)) = WAll"
  shows "\<exists>m' p'. loop_body tc fc (m, p) = Some (Passed False m' p') \<and>
           reads p' = (reads p)(fc ! READ_SIDE := stl (reads p (fc ! READ_SIDE))) \<and>
           errno p' = EAGAIN \<and>
           writes p' = (writes p)(tc ! WRITE_SIDE := stl (writes p (tc ! WRITE_SIDE)))"
proof -
  have "shd (reads (polled tc fc (m, p)) (fc ! READ_SIDE)) = REof"
    using assms by simp
  moreover have "shd (writes p (tc ! WRITE_SIDE)) \<noteq> WSigpipe"
    using assms(3) by simp
  ultimately show ?thesis
    using loop_body_GetLine [OF GetLine_end_of_stream] assms by simp
qed

lemma main_loop_closed:
  "reads p (fc ! READ_SIDE) = always REof \<Longrightarrow> errno p = EAGAIN \<Longrightarrow>
   writes p (tc ! WRITE_SIDE) = always WAll \<Longrightarrow>
   \<exists>m' p'. main_loop n tc fc (m, p) = Some (Running, m', p')"
proof (induction n arbitrary: m p)
  case 0
  then show ?case by simp
next
  case (Suc n)
  then have "shd (reads p (fc ! READ_SIDE)) = REof" "shd (writes p (tc ! WRITE_SIDE)) = WAll"
    by simp_all
  from loop_body_closed [OF this(1) Suc.prems(2) this(2)] obtain m1 p1 where
    b: "loop_body tc fc (m, p) = Some (Passed False m1 p1)"
    and r: "reads p1 = (reads p)(fc ! READ_SIDE := stl (reads p (fc ! READ_SIDE)))"
      "errno p1 = EAGAIN"
      "writes p1 = (writes p)(tc ! WRITE_SIDE := stl (writes p (tc ! WRITE_SIDE)))"
    by blast
  have "reads p1 (fc ! READ_SIDE) = always REof" "writes p1 (tc ! WRITE_SIDE) = always WAll"
    using r Suc.prems by simp_all
  from Suc.IH [OF this(1) r(2) this(2)] b show ?case by simp
qed

lemma decimal_not_Nil: "decimal n \<noteq> []"
  by (subst decimal.simps) simp

lemma digit_char_inj: "i < 10 \<Longrightarrow> j < 10 \<Longrightarrow> digit_char i = digit_char j \<Longrightarrow> i = j"
  unfolding digit_char_def by (subst (asm) nth_eq_iff_index_eq) simp_all

lemma decimal_inj: "decimal n = decimal m \<Longrightarrow> n = m"
proof (induction n arbitrary: m rule: decimal.induct)
  case (1 n)
  show ?case
  proof (cases "n < 10")
    case True
    then have n: "decimal n = [digit_char n]" by (subst decimal.simps) simp
    show ?thesis
    proof (cases "m < 10")
      case m: True
      then have "decimal m = [digit_char m]" by (subst decimal.simps) simp
      with n 1(2) have "digit_char n = digit_char m" by simp
      with True m show ?thesis by (rule digit_char_inj)
    next
      case False
      then have "decimal m = decimal (m div 10) @ [digit_char (m mod 10)]"
        by (subst decimal.simps) simp
      with n 1(2) have "decimal (m div 10) = []" by (simp add: Cons_eq_append_conv)
      then show ?thesis using decimal_not_Nil by simp
    qed
  next
    case False
    then have n: "decimal n = decimal (n div 10) @ [digit_char (n mod 10)]"
      by (subst decimal.simps) simp
    show ?thesis
    proof (cases "m < 10")
      case True
      then have "decimal m = [digit_char m]" by (subst decimal.simps) simp
      with n 1(2) have "decimal (n div 10) = []" by (simp add: append_eq_Cons_conv)
      then show ?thesis using decimal_not_Nil by simp
    next
      case m: False
      then have "decimal m = decimal (m div 10) @ [digit_char (m mod 10)]"
        by (subst decimal.simps) simp
      with n 1(2) have d: "decimal (n div 10) = decimal (m div 10)"
        and "digit_char (n mod 10) = digit_char (m mod 10)" by simp_all
      then have "n mod 10 = m mod 10"
        using digit_char_inj [of "n mod 10" "m mod 10"] by simp
      moreover have "n div 10 = m div 10"
        using 1(1) [OF False d] .
      ultimately show ?thesis
        by (metis mult_div_mod_eq)
    qed
  qed
qed

lemma outbound_of_nat:
  "i < 2 ^ 64 \<Longrightarrow> outbound (of_nat i) = ''Line: '' @ decimal i @ [newline]"
  by (simp add: outbound_def unat_of_nat)

lemma main_loop_idle_written:
  assumes "reads p (fc ! READ_SIDE) = feed []" and "writes p (tc ! WRITE_SIDE) = always WAll"
  shows "final_written (tc ! WRITE_SIDE) (main_loop n tc fc (m, p)) =
           written (tc ! WRITE_SIDE) (trace p) @
           map (\<lambda>i. outbound (message_counter m + of_nat i)) [0..<n]"
proof -
  from main_loop_idle [OF assms] obtain m' p' where
    r: "main_loop n tc fc (m, p) = Some (Running, m', p')" by blast
  from main_loop_written [OF this] show ?thesis
    by (auto simp: final_written_def r)
qed

section \<open>Facts about the descriptor table\<close>

lemma free_fds_two:
  assumes "free_fds lim t = a # b # rest"
  shows "t a = None" "t b = None" "a \<noteq> b"
proof -
  have "a \<in> set (free_fds lim t)" "b \<in> set (free_fds lim t)"
    using assms by simp_all
  then show "t a = None" "t b = None"
    by (simp_all add: free_fds_def)
  have "distinct (free_fds lim t)"
    by (simp add: free_fds_def)
  then show "a \<noteq> b" using assms by simp
qed

lemma pipe_sys_Some:
  assumes "pipe_sys lim nm t = Some (fds, t')"
  shows "\<exists>r w. fds = [r, w] \<and> t r = None \<and> t w = None \<and> r \<noteq> w \<and>
           t' = t(r \<mapsto> PipeEnd nm READ_SIDE, w \<mapsto> PipeEnd nm WRITE_SIDE)"
proof -
  from assms obtain r w rest where f: "free_fds lim t = r # w # rest"
    and "fds = [r, w]" "t' = t(r \<mapsto> PipeEnd nm READ_SIDE, w \<mapsto> PipeEnd nm WRITE_SIDE)"
    by (auto simp: pipe_sys_def split: list.splits)
  with free_fds_two [OF f] show ?thesis by blast
qed

section \<open>Line assembly\<close>

text \<open>
  C3. A descriptor delivers bytes with exactly one newline among them, in any portions,
  and more calls are made than reads are answered. Exactly one call returns true; it sets
  no error and the buffer it reports is what was accumulated before (nothing when the
  reset is pending), the bytes before the newline and the newline itself. The buffer
  keeps the line when the call returns; it is erased at the start of the next call, and
  after the calls it holds the bytes that followed the newline.
\<close>

theorem GetLine_one_newline:
  assumes "reads p fd = feed rs" and "list_all delivery rs"
    and "bytes_of rs = pre @ [newline] @ post"
    and "newline \<notin> set pre" and "newline \<notin> set post"
    and "length rs < n"
  shows "\<exists>res q. GetLine_calls n fd buf p = Some (res, post, q) \<and>
           filter fst res = [(True, False, (if needs_a_reset p then [] else buf) @ pre @ [newline])]"
proof -
  let ?eb = "if needs_a_reset p then [] else buf"
  from GetLine_calls_script [OF assms(1,2,6), of buf] obtain res q where
    c: "GetLine_calls n fd buf p = Some (res, partial_line ?eb (bytes_of rs), q)"
    and r: "reported res = complete_lines ?eb (bytes_of rs)"
    and e: "\<forall>r\<in>set res. \<not> fst (snd r)"
    by auto
  have l: "complete_lines ?eb (bytes_of rs) = [?eb @ pre @ [newline]]"
    using assms(4,5) by (simp add: assms(3) complete_lines_append complete_lines_none)
  have "partial_line ?eb (bytes_of rs) = post"
    using assms(4,5) by (simp add: assms(3) partial_line_append partial_line_none)
  then have c': "GetLine_calls n fd buf p = Some (res, post, q)"
    using c by simp
  from r l have "map (\<lambda>r. snd (snd r)) (filter fst res) = [?eb @ pre @ [newline]]"
    by (simp add: reported_def)
  then obtain x where x: "filter fst res = [x]" "snd (snd x) = ?eb @ pre @ [newline]"
    by auto
  then have "x \<in> set (filter fst res)"
    by simp
  then have "x \<in> set res" "fst x"
    by simp_all
  with e have "x = (True, False, snd (snd x))"
    by (cases x) auto
  with x c' show ?thesis by auto
qed

theorem GetLine_one_newline_witness:
  "\<exists>res q. GetLine_calls 6 5 ''old''
       (process_init 0
          (every_fd (feed [RByte CHR ''a'', RFail EAGAIN, RByte CHR ''b'', RByte newline,
                           RByte CHR ''c'']))
          (every_fd (always WAll)))
     = Some (res, ''c'', q) \<and> filter fst res = [(True, False, ''ab'' @ [newline])]"
  using GetLine_one_newline [where p = "process_init 0
          (every_fd (feed [RByte CHR ''a'', RFail EAGAIN, RByte CHR ''b'', RByte newline,
                           RByte CHR ''c'']))
          (every_fd (always WAll))" and fd = 5 and n = 6 and buf = "''old''"
        and pre = "''ab''" and post = "''c''"
        and rs = "[RByte CHR ''a'', RFail EAGAIN, RByte CHR ''b'', RByte newline, RByte CHR ''c'']"]
  by (simp add: process_init_def every_fd_def delivery_def newline_def)

theorem GetLine_one_newline_counterexample:
  "outcome (GetLine 5 []
      (process_init 0 (every_fd (feed [RByte CHR ''A'', RByte newline])) (every_fd (always WAll))))
     = Some (True, False, ''A'' @ [newline]) \<and>
   ''A'' @ [newline] \<noteq> ''A'' \<and> ''A'' @ [newline] \<noteq> []"
  by (simp add: GetLine_reset GetLine_byte GetLine_newline process_init_def every_fd_def newline_def)

text \<open>
  C6. A descriptor delivers two newline-terminated segments, in any portions (reads that
  would block may come anywhere between the bytes), to a \<^verbatim>\<open>GetLine\<close> whose reset is
  pending, as at program start. Among enough successive calls exactly two return true;
  the first reports the first segment and the second the second segment, each with its
  newline, in this order. And whenever a call returns true, the reads it made are the
  bytes up to its newline and no more: what follows the newline is still to be read.
\<close>

theorem GetLine_two_segments:
  assumes "reads p fd = feed rs" and "list_all delivery rs"
    and "bytes_of rs = s1 @ [newline] @ s2 @ [newline]"
    and "newline \<notin> set s1" and "newline \<notin> set s2"
    and "needs_a_reset p" and "length rs < n"
  shows "(\<exists>res q. GetLine_calls n fd buf p = Some (res, [], q) \<and>
            map (\<lambda>r. snd (snd r)) (filter fst res) = [s1 @ [newline], s2 @ [newline]] \<and>
            length (filter fst res) = 2) \<and>
         (\<forall>fd' buf' p' e b q'. GetLine fd' buf' p' = Some (True, e, b, q') \<longrightarrow>
            (\<exists>bs. newline \<notin> set bs \<and> reads p' fd' = map RByte (bs @ [newline]) @- reads q' fd'))"
proof
  from GetLine_calls_script [OF assms(1,2,7), of buf] obtain res q where
    c: "GetLine_calls n fd buf p = Some (res, partial_line [] (bytes_of rs), q)"
    and r: "reported res = complete_lines [] (bytes_of rs)"
    using assms(6) by auto
  have "complete_lines [] (bytes_of rs) = [s1 @ [newline], s2 @ [newline]]"
    using assms(4,5) by (simp add: assms(3) complete_lines_append)
  moreover have "partial_line [] (bytes_of rs) = []"
    using assms(4,5) by (simp add: assms(3) partial_line_append)
  ultimately have "map (\<lambda>r. snd (snd r)) (filter fst res) = [s1 @ [newline], s2 @ [newline]]"
    and "GetLine_calls n fd buf p = Some (res, [], q)"
    using c r by (simp_all add: reported_def)
  moreover from this(1) have "length (filter fst res) = 2"
    by (metis length_map length_Cons list.size(3) numeral_2_eq_2)
  ultimately show "\<exists>res q. GetLine_calls n fd buf p = Some (res, [], q) \<and>
            map (\<lambda>r. snd (snd r)) (filter fst res) = [s1 @ [newline], s2 @ [newline]] \<and>
            length (filter fst res) = 2"
    by (intro exI conjI)
next
  show "\<forall>fd' buf' p' e b q'. GetLine fd' buf' p' = Some (True, e, b, q') \<longrightarrow>
          (\<exists>bs. newline \<notin> set bs \<and> reads p' fd' = map RByte (bs @ [newline]) @- reads q' fd')"
    using GetLine_line by blast
qed

theorem GetLine_two_segments_witness:
  "(\<exists>res q. GetLine_calls 6 5 ''old''
       (process_init 0
          (every_fd (feed [RByte CHR ''A'', RByte newline, RFail EAGAIN,
                           RByte CHR ''B'', RByte newline]))
          (every_fd (always WAll)))
     = Some (res, [], q) \<and>
     map (\<lambda>r. snd (snd r)) (filter fst res) = [''A'' @ [newline], ''B'' @ [newline]] \<and>
     length (filter fst res) = 2) \<and>
   (\<exists>q. GetLine 5 ''old''
       (process_init 0
          (every_fd (feed [RByte CHR ''A'', RByte newline, RFail EAGAIN,
                           RByte CHR ''B'', RByte newline]))
          (every_fd (always WAll))) = Some (True, False, ''A'' @ [newline], q) \<and>
      reads q 5 = feed [RFail EAGAIN, RByte CHR ''B'', RByte newline])"
proof -
  let ?rs = "[RByte CHR ''A'', RByte newline, RFail EAGAIN, RByte CHR ''B'', RByte newline]"
  let ?p = "process_init 0 (every_fd (feed ?rs)) (every_fd (always WAll))"
  let ?q = "(consume 5 (consume 5 (?p\<lparr>needs_a_reset := False\<rparr>)))\<lparr>needs_a_reset := True\<rparr>"
  have g: "GetLine 5 ''old'' ?p = Some (True, False, ''A'' @ [newline], ?q)"
    by (simp add: GetLine_reset GetLine_byte GetLine_newline process_init_def every_fd_def
        newline_def)
  have t: "(\<exists>res q. GetLine_calls 6 5 ''old'' ?p = Some (res, [], q) \<and>
            map (\<lambda>r. snd (snd r)) (filter fst res) = [''A'' @ [newline], ''B'' @ [newline]] \<and>
            length (filter fst res) = 2) \<and>
         (\<forall>fd' buf' p' e b q'. GetLine fd' buf' p' = Some (True, e, b, q') \<longrightarrow>
            (\<exists>bs. newline \<notin> set bs \<and> reads p' fd' = map RByte (bs @ [newline]) @- reads q' fd'))"
    using GetLine_two_segments [where p = ?p and fd = 5 and n = 6 and buf = "''old''"
        and ?s1.0 = "''A''" and ?s2.0 = "''B''" and rs = ?rs]
    by (simp add: process_init_def every_fd_def delivery_def newline_def)
  have "reads ?q 5 = feed [RFail EAGAIN, RByte CHR ''B'', RByte newline]"
    by (simp add: process_init_def every_fd_def)
  with g have "\<exists>q. GetLine 5 ''old'' ?p = Some (True, False, ''A'' @ [newline], q) \<and>
      reads q 5 = feed [RFail EAGAIN, RByte CHR ''B'', RByte newline]"
    by (intro exI [of _ ?q] conjI)
  with t show ?thesis by (intro conjI) (rule conjunct1)
qed

text \<open>
  C9. In successive calls that hand one buffer from call to call, started with the reset
  pending or with a buffer without newline (as \<^verbatim>\<open>main\<close> starts), whatever the
  descriptor delivers: every buffer reported by a call that returned true is not empty,
  ends with a newline and has no other newline. (A call made with no reset pending on
  a buffer that already holds a newline keeps that newline in what it reports.)
\<close>

theorem reported_line_one_newline:
  assumes "GetLine_calls n fd buf p = Some (res, b, q)"
    and "needs_a_reset p \<or> newline \<notin> set buf"
  shows "\<forall>(r, e, l)\<in>set res. r \<longrightarrow> l \<noteq> [] \<and> last l = newline \<and> count_list l newline = 1"
proof -
  have "\<forall>l\<in>set (reported res). \<exists>x. l = x @ [newline] \<and> newline \<notin> set x"
    using GetLine_calls_lines [OF assms] by simp
  moreover have "l \<in> set (reported res)" if "(True, e, l) \<in> set res" for e l
    using that by (force simp: reported_def)
  ultimately have *: "\<exists>x. l = x @ [newline] \<and> newline \<notin> set x" if "(True, e, l) \<in> set res" for e l
    using that by blast
  show ?thesis
  proof (clarify, intro conjI)
    fix r e l
    assume "(r, e, l) \<in> set res" and r
    then have "(True, e, l) \<in> set res" by simp
    with * obtain x where x: "l = x @ [newline]" "newline \<notin> set x"
      by blast
    show "l \<noteq> []" "last l = newline" "count_list l newline = 1"
      using x by (simp_all add: count_list_0_iff)
  qed
qed

theorem reported_line_one_newline_witness:
  "\<exists>res b q. GetLine_calls 6 5 ''old''
       (process_init 0
          (every_fd (feed [RByte CHR ''A'', RByte newline, RFail EAGAIN,
                           RByte CHR ''B'', RByte newline]))
          (every_fd (always WAll)))
     = Some (res, b, q) \<and> (True, False, ''A'' @ [newline]) \<in> set res \<and>
     (\<forall>(r, e, l)\<in>set res. r \<longrightarrow> l \<noteq> [] \<and> last l = newline \<and> count_list l newline = 1)"
proof -
  let ?p = "process_init 0
          (every_fd (feed [RByte CHR ''A'', RByte newline, RFail EAGAIN,
                           RByte CHR ''B'', RByte newline]))
          (every_fd (always WAll))"
  have nr: "needs_a_reset ?p"
    by (simp add: process_init_def)
  have "\<exists>res q. GetLine_calls 6 5 ''old'' ?p = Some (res, [], q) \<and>
     map (\<lambda>r. snd (snd r)) (filter fst res) = [''A'' @ [newline], ''B'' @ [newline]] \<and>
     length (filter fst res) = 2"
    using GetLine_calls_script [where p = ?p and fd = 5 and n = 6 and buf = "''old''"
        and rs = "[RByte CHR ''A'', RByte newline, RFail EAGAIN, RByte CHR ''B'', RByte newline]"]
    by (auto simp: process_init_def every_fd_def delivery_def newline_def reported_def)
  then obtain res q where c: "GetLine_calls 6 5 ''old'' ?p = Some (res, [], q)"
    and m: "map (\<lambda>r. snd (snd r)) (filter fst res) = [''A'' @ [newline], ''B'' @ [newline]]"
    by (elim exE conjE)
  from m obtain x y where f: "filter fst res = [x, y]" and x: "snd (snd x) = ''A'' @ [newline]"
    by (auto simp: map_eq_Cons_conv)
  have "x \<in> set (filter fst res)"
    by (simp add: f)
  then have "x \<in> set res" "fst x"
    by simp_all
  moreover have "\<forall>r\<in>set res. \<not> fst (snd r)"
    using GetLine_calls_script [where p = ?p and fd = 5 and n = 6 and buf = "''old''"
        and rs = "[RByte CHR ''A'', RByte newline, RFail EAGAIN, RByte CHR ''B'', RByte newline]"] c
    by (auto simp: process_init_def every_fd_def delivery_def)
  ultimately have "x = (True, False, ''A'' @ [newline])"
    using x by (simp add: prod_eq_iff)
  with \<open>x \<in> set res\<close> have a: "(True, False, ''A'' @ [newline]) \<in> set res"
    by simp
  have "\<forall>(r, e, l)\<in>set res. r \<longrightarrow> l \<noteq> [] \<and> last l = newline \<and> count_list l newline = 1"
    by (rule reported_line_one_newline [OF c disjI1 [OF nr]])
  with c a show ?thesis by (intro exI conjI)
qed

theorem reported_line_one_newline_counterexample:
  "GetLine 5 []
     (process_init 0
        ((every_fd (feed []))
           (5 := feed [RByte CHR ''a'', RByte newline, RByte CHR ''b'', RByte newline]))
        (every_fd (always WAll)))
     = Some (True, False, ''a'' @ [newline],
         (consume 5 (consume 5 ((process_init 0
            ((every_fd (feed []))
               (5 := feed [RByte CHR ''a'', RByte newline, RByte CHR ''b'', RByte newline]))
            (every_fd (always WAll)))\<lparr>needs_a_reset := False\<rparr>)))\<lparr>needs_a_reset := True\<rparr>) \<and>
   GetLine 7 ''y''
     ((consume 5 (consume 5 ((process_init 0
        ((every_fd (feed []))
           (5 := feed [RByte CHR ''a'', RByte newline, RByte CHR ''b'', RByte newline]))
        (every_fd (always WAll)))\<lparr>needs_a_reset := False\<rparr>)))\<lparr>needs_a_reset := True\<rparr>)
     = Some (False, False, [],
         consume 7 ((consume 5 (consume 5 ((process_init 0
            ((every_fd (feed []))
               (5 := feed [RByte CHR ''a'', RByte newline, RByte CHR ''b'', RByte newline]))
            (every_fd (always WAll)))\<lparr>needs_a_reset := False\<rparr>)))\<lparr>needs_a_reset := False\<rparr>)) \<and>
   outcome (GetLine 5 (''a'' @ [newline])
     (consume 7 ((consume 5 (consume 5 ((process_init 0
        ((every_fd (feed []))
           (5 := feed [RByte CHR ''a'', RByte newline, RByte CHR ''b'', RByte newline]))
        (every_fd (always WAll)))\<lparr>needs_a_reset := False\<rparr>)))\<lparr>needs_a_reset := False\<rparr>)))
     = Some (True, False, ''a'' @ [newline] @ ''b'' @ [newline]) \<and>
   count_list (''a'' @ [newline] @ ''b'' @ [newline]) newline = 2"
  by (simp add: GetLine_reset GetLine_byte GetLine_newline GetLine_fail [where e = EAGAIN]
      process_init_def every_fd_def newline_def)

section \<open>The reset flag\<close>

text \<open>
  C2. The buffer is erased at the start of the first call of the process and at the start
  of the call that follows a call that returned true, and at the start of no other call.
  The first conjunct is the first call: with \<^verbatim>\<open>needs_a_reset\<close> at its initialiser the
  call does what it does on an empty buffer. The second is about a call and the next one,
  on any descriptors and buffers: after a call that returned true the next call does what
  it does on an empty buffer; after a call that returned false the next call only appends
  to the buffer it is given, and when its read would block at once it returns false, sets
  no error and leaves the buffer as it was.
\<close>

theorem GetLine_erase_discipline:
  "GetLine fd buf (process_init e0 rd wr) = GetLine fd [] (process_init e0 rd wr) \<and>
   (GetLine fd0 buf0 p = Some (r0, err0, b0, q) \<longrightarrow>
      (r0 \<longrightarrow> GetLine fd buf q = GetLine fd [] q) \<and>
      (\<not> r0 \<longrightarrow>
         (\<forall>r e b q'. GetLine fd buf q = Some (r, e, b, q') \<longrightarrow> (\<exists>bs. b = buf @ bs)) \<and>
         (shd (reads q fd) = RFail EAGAIN \<longrightarrow>
            (\<exists>q'. GetLine fd buf q = Some (False, False, buf, q')))))"
proof (intro conjI impI allI)
  show "GetLine fd buf (process_init e0 rd wr) = GetLine fd [] (process_init e0 rd wr)"
    by (rule GetLine_erases) (simp add: process_init_def)
next
  assume "GetLine fd0 buf0 p = Some (r0, err0, b0, q)" and r0
  then have "needs_a_reset q" using GetLine_flag by blast
  then show "GetLine fd buf q = GetLine fd [] q" by (rule GetLine_erases)
next
  fix r e b q'
  assume "GetLine fd0 buf0 p = Some (r0, err0, b0, q)" and "\<not> r0"
  then have nf: "\<not> needs_a_reset q" using GetLine_flag by blast
  assume g: "GetLine fd buf q = Some (r, e, b, q')"
  show "\<exists>bs. b = buf @ bs"
  proof (cases r)
    case True
    with g have "GetLine fd buf q = Some (True, e, b, q')" by simp
    from GetLine_line [OF this] nf show ?thesis by auto
  next
    case False
    with g have "GetLine fd buf q = Some (False, e, b, q')" by simp
    from GetLine_no_line [OF this] nf show ?thesis by auto
  qed
next
  assume "GetLine fd0 buf0 p = Some (r0, err0, b0, q)" and "\<not> r0"
  then have nf: "\<not> needs_a_reset q" using GetLine_flag by blast
  assume "shd (reads q fd) = RFail EAGAIN"
  with nf show "\<exists>q'. GetLine fd buf q = Some (False, False, buf, q')"
    by (simp add: GetLine_fail [of q fd EAGAIN])
qed

theorem GetLine_erase_discipline_witness:
  "GetLine 5 ''abc'' (process_init 0 (every_fd (feed [])) (every_fd (always WAll)))
     = Some (False, False, [],
         consume 5 ((process_init 0 (every_fd (feed [])) (every_fd (always WAll)))
                      \<lparr>needs_a_reset := False\<rparr>)) \<and>
   (\<exists>q'. GetLine 5 ''xy''
       (consume 5 ((process_init 0 (every_fd (feed [])) (every_fd (always WAll)))
                      \<lparr>needs_a_reset := False\<rparr>))
     = Some (False, False, ''xy'', q')) \<and>
   (\<exists>q. GetLine 5 [] (process_init 0 (every_fd (feed [RByte newline])) (every_fd (always WAll)))
          = Some (True, False, [newline], q) \<and>
        GetLine 5 ''xy'' q = GetLine 5 [] q)"
proof -
  let ?p = "process_init 0 (every_fd (feed [])) (every_fd (always WAll))"
  let ?q = "consume 5 (?p\<lparr>needs_a_reset := False\<rparr>)"
  have g: "GetLine 5 ''abc'' ?p = Some (False, False, [], ?q)"
    by (simp add: GetLine_reset GetLine_fail [where e = EAGAIN] process_init_def every_fd_def)
  have "shd (reads ?q 5) = RFail EAGAIN"
    by (simp add: process_init_def every_fd_def)
  with g GetLine_erase_discipline [where ?fd0.0 = 5 and ?buf0.0 = "''abc''" and p = ?p
      and ?r0.0 = False and ?err0.0 = False and ?b0.0 = "[]" and q = ?q
      and fd = 5 and buf = "''xy''"]
  have a: "\<exists>q'. GetLine 5 ''xy'' ?q = Some (False, False, ''xy'', q')" by simp
  let ?p1 = "process_init 0 (every_fd (feed [RByte newline])) (every_fd (always WAll))"
  let ?q1 = "(consume 5 (?p1\<lparr>needs_a_reset := False\<rparr>))\<lparr>needs_a_reset := True\<rparr>"
  have g1: "GetLine 5 [] ?p1 = Some (True, False, [newline], ?q1)"
    by (simp add: GetLine_reset GetLine_newline process_init_def every_fd_def)
  with GetLine_erase_discipline [where ?fd0.0 = 5 and ?buf0.0 = "[]" and p = ?p1
      and ?r0.0 = True and ?err0.0 = False and ?b0.0 = "[newline]" and q = ?q1
      and fd = 5 and buf = "''xy''"]
  have "GetLine 5 ''xy'' ?q1 = GetLine 5 [] ?q1" by simp
  with g g1 a show ?thesis by blast
qed

theorem GetLine_erase_discipline_counterexample:
  "outcome (GetLine 5 ''abc'' (process_init 0 (every_fd (feed [])) (every_fd (always WAll))))
     = Some (False, False, []) \<and> [] \<noteq> ''abc''"
  by (simp add: GetLine_reset GetLine_fail [where e = EAGAIN] process_init_def every_fd_def)

text \<open>
  C10. \<^verbatim>\<open>needs_a_reset\<close> is one flag of the process, true at the start. The first call
  does what it does on an empty buffer, whatever buffer it is given; and after a call
  that returned true, on any descriptor, the flag is set and the next call, on any
  descriptor and with any buffer, does what it does on an empty buffer.
\<close>

theorem needs_a_reset_shared:
  "needs_a_reset (process_init e0 rd wr) \<and>
   GetLine fd buf (process_init e0 rd wr) = GetLine fd [] (process_init e0 rd wr) \<and>
   (GetLine fd1 buf1 p = Some (True, err, b1, q) \<longrightarrow>
      needs_a_reset q \<and> GetLine fd2 buf2 q = GetLine fd2 [] q)"
proof (intro conjI impI)
  show "needs_a_reset (process_init e0 rd wr)"
    by (simp add: process_init_def)
  then show "GetLine fd buf (process_init e0 rd wr) = GetLine fd [] (process_init e0 rd wr)"
    by (rule GetLine_erases)
next
  assume "GetLine fd1 buf1 p = Some (True, err, b1, q)"
  then show "needs_a_reset q" using GetLine_flag by blast
  then show "GetLine fd2 buf2 q = GetLine fd2 [] q" by (rule GetLine_erases)
qed

theorem needs_a_reset_shared_witness:
  "\<exists>q. GetLine 5 []
          (process_init 0
             ((every_fd (feed []))(5 := feed [RByte CHR ''a'', RByte newline],
                                    7 := feed [RByte CHR ''z'']))
             (every_fd (always WAll)))
        = Some (True, False, ''a'' @ [newline], q) \<and>
      outcome (GetLine 7 ''xy'' q) = Some (False, False, ''z'')"
proof -
  let ?p = "process_init 0
             ((every_fd (feed []))(5 := feed [RByte CHR ''a'', RByte newline],
                                    7 := feed [RByte CHR ''z'']))
             (every_fd (always WAll))"
  let ?q = "(consume 5 (consume 5 (?p\<lparr>needs_a_reset := False\<rparr>)))\<lparr>needs_a_reset := True\<rparr>"
  have g: "GetLine 5 [] ?p = Some (True, False, ''a'' @ [newline], ?q)"
    by (simp add: GetLine_reset GetLine_byte GetLine_newline process_init_def every_fd_def
        newline_def)
  with needs_a_reset_shared [where ?fd1.0 = 5 and ?buf1.0 = "[]" and p = ?p and err = False
      and ?b1.0 = "''a'' @ [newline]" and q = ?q and ?fd2.0 = 7 and ?buf2.0 = "''xy''"]
  have "GetLine 7 ''xy'' ?q = GetLine 7 [] ?q"
    by simp
  moreover have "outcome (GetLine 7 [] ?q) = Some (False, False, ''z'')"
    by (simp add: GetLine_reset GetLine_byte GetLine_fail [where e = EAGAIN] process_init_def
        every_fd_def newline_def)
  ultimately show ?thesis using g by simp
qed

section \<open>The duplex loop\<close>

text \<open>
  C5. From the locals as \<^verbatim>\<open>main\<close> declares them, after at most \<open>2 ^ 64\<close> passes: the
  loop has made \<open>k\<close> passes (all of them when it is still running), the counter is
  \<open>k\<close>, the texts handed to \<^verbatim>\<open>write\<close> are \<^verbatim>\<open>"Line: "\<close>, the decimal digits of
  \<open>i\<close> and a newline for \<open>i = 0, 1, ..., k - 1\<close> in this order, and no two of these
  texts and no two of these counter values are equal.
\<close>

theorem message_counter_counts:
  assumes "main_loop n tc fc (main_init, p) = Some (st, m', p')" and "n \<le> 2 ^ 64"
  shows "\<exists>k\<le>n. (st = Running \<longrightarrow> k = n) \<and> (st = Exited \<longrightarrow> 0 < k) \<and>
           message_counter m' = of_nat k \<and>
           written (tc ! WRITE_SIDE) (trace p') =
             written (tc ! WRITE_SIDE) (trace p) @
             map (\<lambda>i. ''Line: '' @ decimal i @ [newline]) [0..<k] \<and>
           distinct (map (\<lambda>i. ''Line: '' @ decimal i @ [newline]) [0..<k]) \<and>
           distinct (map (of_nat :: nat \<Rightarrow> 64 word) [0..<k])"
proof -
  from main_loop_written [OF assms(1)] obtain k where k: "k \<le> n"
    "st = Running \<longrightarrow> k = n" "st = Exited \<longrightarrow> 0 < k"
    "message_counter m' = message_counter main_init + of_nat k"
    "written (tc ! WRITE_SIDE) (trace p') =
       written (tc ! WRITE_SIDE) (trace p) @
       map (\<lambda>i. outbound (message_counter main_init + of_nat i)) [0..<k]"
    by blast
  have "map (\<lambda>i. outbound (message_counter main_init + of_nat i)) [0..<k] =
        map (\<lambda>i. ''Line: '' @ decimal i @ [newline]) [0..<k]"
    using k(1) assms(2) by (intro map_cong) (simp_all add: main_init_def outbound_of_nat)
  moreover have "distinct (map (\<lambda>i. ''Line: '' @ decimal i @ [newline]) [0..<k])"
    by (auto simp: distinct_map inj_on_def dest: decimal_inj)
  moreover have "distinct (map (of_nat :: nat \<Rightarrow> 64 word) [0..<k])"
    using k(1) assms(2)
    by (auto simp: distinct_map inj_on_def word_of_nat_eq_iff take_bit_nat_eq_self)
  ultimately show ?thesis
    using k by (intro exI [of _ k]) (simp add: main_init_def)
qed

theorem message_counter_counts_witness:
  "\<exists>m' p'. main_loop 3 [3, 4] [5, 6]
       (main_init, process_init 0 (every_fd (feed [])) (every_fd (always WAll)))
     = Some (Running, m', p') \<and> message_counter m' = 3 \<and>
     written 4 (trace p') =
       [''Line: 0'' @ [newline], ''Line: 1'' @ [newline], ''Line: 2'' @ [newline]]"
proof -
  let ?p = "process_init 0 (every_fd (feed [])) (every_fd (always WAll))"
  have "reads ?p ([5, 6] ! READ_SIDE) = feed []" "writes ?p ([3, 4] ! WRITE_SIDE) = always WAll"
    by (simp_all add: process_init_def every_fd_def)
  from main_loop_idle [OF this, where n = 3 and m = main_init] obtain m' p' where
    r: "main_loop 3 [3, 4] [5, 6] (main_init, ?p) = Some (Running, m', p')" by blast
  from message_counter_counts [OF r]
  have "message_counter m' = 3 \<and>
     written 4 (trace p') =
       [''Line: 0'' @ [newline], ''Line: 1'' @ [newline], ''Line: 2'' @ [newline]]"
    by (simp add: WRITE_SIDE_def process_init_def upt_rec decimal.simps digit_char_def)
  with r show ?thesis by blast
qed

theorem message_counter_counts_counterexample:
  "final_written 4 (main_loop (2 ^ 64 + 1) [3, 4] [5, 6]
       (main_init, process_init 0 (every_fd (feed [])) (every_fd (always WAll)))) ! (2 ^ 64)
     = ''Line: 0'' @ [newline] \<and>
   final_written 4 (main_loop (2 ^ 64 + 1) [3, 4] [5, 6]
       (main_init, process_init 0 (every_fd (feed [])) (every_fd (always WAll)))) ! 0
     = ''Line: 0'' @ [newline]"
proof -
  let ?p = "process_init 0 (every_fd (feed [])) (every_fd (always WAll))"
  have "reads ?p ([5, 6] ! READ_SIDE) = feed []" "writes ?p ([3, 4] ! WRITE_SIDE) = always WAll"
    by (simp_all add: process_init_def every_fd_def)
  from main_loop_idle_written [OF this, where n = "2 ^ 64 + 1" and m = main_init]
  have "final_written 4 (main_loop (2 ^ 64 + 1) [3, 4] [5, 6] (main_init, ?p)) =
          map (\<lambda>i. outbound (of_nat i)) [0..<2 ^ 64 + 1]"
    by (simp add: WRITE_SIDE_def process_init_def main_init_def del: upt_Suc)
  moreover have "map (\<lambda>i. outbound (of_nat i)) [0..<2 ^ 64 + 1] ! (2 ^ 64) = outbound 0"
  proof -
    have "map (\<lambda>i. outbound (of_nat i)) [0..<2 ^ 64 + 1] ! (2 ^ 64)
            = outbound (of_nat (0 + 2 ^ 64))"
      by (rule nth_map_upt) simp
    also have "(of_nat (0 + 2 ^ 64) :: 64 word) = 0"
      by simp
    finally show ?thesis .
  qed
  moreover have "map (\<lambda>i. outbound (of_nat i)) [0..<2 ^ 64 + 1] ! 0 = outbound 0"
    by (subst nth_map_upt) simp_all
  moreover have "outbound 0 = ''Line: 0'' @ [newline]"
    by (simp add: outbound_def decimal.simps digit_char_def)
  ultimately show ?thesis by simp
qed

text \<open>
  C8. In one pass the \<^verbatim>\<open>write\<close> of the outbound text comes first, then \<^verbatim>\<open>AddLine\<close>,
  then the reads of \<^verbatim>\<open>GetLine\<close> (at least one), then only display calls and the wait.
  Across passes the texts are handed to \<^verbatim>\<open>write\<close> in the order of the passes, the
  \<open>i\<close>-th carrying the counter value \<open>i\<close> modulo \<open>2 ^ 64\<close>; below \<open>2 ^ 64\<close> a
  later text carries a larger counter value.
\<close>

theorem write_before_poll:
  "(loop_body tc fc (m, p) = Some (Passed brk m1 p1) \<longrightarrow>
      (\<exists>ret rs tl. rs \<noteq> [] \<and>
         trace p1 = trace p @
           EvWrite (tc ! WRITE_SIDE) (outbound (message_counter m)) ret #
           EvAddLine tx_window (c_str (outbound (message_counter m))) #
           map (EvRead (fc ! READ_SIDE)) rs @ tl \<and>
         (\<forall>ev\<in>set tl. (\<exists>s. ev = EvAddLine rx_window s) \<or> ev = EvRefresh \<or> ev = EvSleep 250))) \<and>
   (main_loop n tc fc (main_init, p) = Some (st, m2, p2) \<longrightarrow>
      (\<exists>k\<le>n. (st = Running \<longrightarrow> k = n) \<and>
         written (tc ! WRITE_SIDE) (trace p2) =
           written (tc ! WRITE_SIDE) (trace p) @ map (\<lambda>i. outbound (of_nat i)) [0..<k] \<and>
         (\<forall>i j. i < j \<and> j < k \<and> j < 2 ^ 64 \<longrightarrow> (of_nat i :: 64 word) < of_nat j)))"
proof (intro conjI impI)
  assume "loop_body tc fc (m, p) = Some (Passed brk m1 p1)"
  then show "\<exists>ret rs tl. rs \<noteq> [] \<and>
         trace p1 = trace p @
           EvWrite (tc ! WRITE_SIDE) (outbound (message_counter m)) ret #
           EvAddLine tx_window (c_str (outbound (message_counter m))) #
           map (EvRead (fc ! READ_SIDE)) rs @ tl \<and>
         (\<forall>ev\<in>set tl. (\<exists>s. ev = EvAddLine rx_window s) \<or> ev = EvRefresh \<or> ev = EvSleep 250)"
    by (rule loop_body_trace)
next
  assume "main_loop n tc fc (main_init, p) = Some (st, m2, p2)"
  from main_loop_written [OF this] obtain k where k: "k \<le> n" "st = Running \<longrightarrow> k = n"
    "written (tc ! WRITE_SIDE) (trace p2) =
       written (tc ! WRITE_SIDE) (trace p) @
       map (\<lambda>i. outbound (message_counter main_init + of_nat i)) [0..<k]"
    by blast
  have "\<forall>i j. i < j \<and> j < k \<and> j < 2 ^ 64 \<longrightarrow> (of_nat i :: 64 word) < of_nat j"
    by (simp add: word_of_nat_less_iff take_bit_nat_eq_self)
  with k show "\<exists>k\<le>n. (st = Running \<longrightarrow> k = n) \<and>
         written (tc ! WRITE_SIDE) (trace p2) =
           written (tc ! WRITE_SIDE) (trace p) @ map (\<lambda>i. outbound (of_nat i)) [0..<k] \<and>
         (\<forall>i j. i < j \<and> j < k \<and> j < 2 ^ 64 \<longrightarrow> (of_nat i :: 64 word) < of_nat j)"
    by (intro exI [of _ k]) (simp add: main_init_def)
qed

theorem write_before_poll_witness:
  "(\<exists>m1 p1 ret rs tl. loop_body [3, 4] [5, 6]
       (main_init, process_init 0 (every_fd (feed [])) (every_fd (always WAll)))
     = Some (Passed False m1 p1) \<and> rs \<noteq> [] \<and>
     trace p1 = EvWrite 4 (outbound 0) ret # EvAddLine tx_window (c_str (outbound 0)) #
                map (EvRead 5) rs @ tl) \<and>
   (\<exists>m' p'. main_loop 2 [3, 4] [5, 6]
       (main_init, process_init 0 (every_fd (feed [])) (every_fd (always WAll)))
     = Some (Running, m', p') \<and>
     written 4 (trace p') = [outbound 0, outbound 1] \<and> (0 :: 64 word) < 1)"
proof -
  let ?p = "process_init 0 (every_fd (feed [])) (every_fd (always WAll))"
  have s: "shd (reads ?p ([5, 6] ! READ_SIDE)) = RFail EAGAIN"
    by (simp add: process_init_def every_fd_def)
  have w: "shd (writes ?p ([3, 4] ! WRITE_SIDE)) \<noteq> WSigpipe"
    by (simp add: process_init_def every_fd_def)
  from loop_body_would_block [OF s w, where m = main_init] obtain m1 p1 where
    b: "loop_body [3, 4] [5, 6] (main_init, ?p) = Some (Passed False m1 p1)" by blast
  from write_before_poll [where tc = "[3, 4]" and fc = "[5, 6]" and m = main_init and p = ?p
      and brk = False and ?m1.0 = m1 and ?p1.0 = p1, THEN conjunct1, THEN mp, OF b]
  obtain ret rs tl where "rs \<noteq> []"
    "trace p1 = trace ?p @ EvWrite ([3, 4] ! WRITE_SIDE) (outbound (message_counter main_init)) ret #
       EvAddLine tx_window (c_str (outbound (message_counter main_init))) #
       map (EvRead ([5, 6] ! READ_SIDE)) rs @ tl"
    by (elim exE conjE)
  then have one: "rs \<noteq> [] \<and>
     trace p1 = EvWrite 4 (outbound 0) ret # EvAddLine tx_window (c_str (outbound 0)) #
                map (EvRead 5) rs @ tl"
    by (simp add: process_init_def main_init_def READ_SIDE_def WRITE_SIDE_def)
  have "reads ?p ([5, 6] ! READ_SIDE) = feed []" "writes ?p ([3, 4] ! WRITE_SIDE) = always WAll"
    by (simp_all add: process_init_def every_fd_def)
  from main_loop_idle [OF this, where n = 2 and m = main_init] obtain m' p' where
    r: "main_loop 2 [3, 4] [5, 6] (main_init, ?p) = Some (Running, m', p')" by blast
  from write_before_poll [where n = 2 and tc = "[3, 4]" and fc = "[5, 6]" and p = ?p
      and st = Running and ?m2.0 = m' and ?p2.0 = p', THEN conjunct2, THEN mp, OF r]
  obtain k where "k = 2"
    "written 4 (trace p') = written 4 (trace ?p) @ map (\<lambda>i. outbound (of_nat i)) [0..<k]"
    "\<forall>i j. i < j \<and> j < k \<and> j < 2 ^ 64 \<longrightarrow> (of_nat i :: 64 word) < of_nat j"
    by (auto simp: WRITE_SIDE_def)
  then have two: "written 4 (trace p') = [outbound 0, outbound 1]"
    "(of_nat 0 :: 64 word) < of_nat 1"
    by (simp_all add: process_init_def upt_rec)
  have "\<exists>m1 p1 ret rs tl. loop_body [3, 4] [5, 6] (main_init, ?p) = Some (Passed False m1 p1) \<and>
     rs \<noteq> [] \<and>
     trace p1 = EvWrite 4 (outbound 0) ret # EvAddLine tx_window (c_str (outbound 0)) #
                map (EvRead 5) rs @ tl"
    using b one by blast
  moreover have "\<exists>m' p'. main_loop 2 [3, 4] [5, 6] (main_init, ?p) = Some (Running, m', p') \<and>
     written 4 (trace p') = [outbound 0, outbound 1] \<and> (0 :: 64 word) < 1"
    using r two by (intro exI conjI) simp_all
  ultimately show ?thesis by (rule conjI)
qed

theorem write_before_poll_counterexample:
  "final_written 4 (main_loop (2 ^ 64 + 1) [3, 4] [5, 6]
       (main_init, process_init 0 (every_fd (feed [])) (every_fd (always WAll)))) ! (2 ^ 64 - 1)
     = outbound 18446744073709551615 \<and>
   final_written 4 (main_loop (2 ^ 64 + 1) [3, 4] [5, 6]
       (main_init, process_init 0 (every_fd (feed [])) (every_fd (always WAll)))) ! (2 ^ 64)
     = outbound 0 \<and>
   (0 :: 64 word) < 18446744073709551615"
proof -
  let ?p = "process_init 0 (every_fd (feed [])) (every_fd (always WAll))"
  have "reads ?p ([5, 6] ! READ_SIDE) = feed []" "writes ?p ([3, 4] ! WRITE_SIDE) = always WAll"
    by (simp_all add: process_init_def every_fd_def)
  from main_loop_idle_written [OF this, where n = "2 ^ 64 + 1" and m = main_init]
  have "final_written 4 (main_loop (2 ^ 64 + 1) [3, 4] [5, 6] (main_init, ?p)) =
          map (\<lambda>i. outbound (of_nat i)) [0..<2 ^ 64 + 1]"
    by (simp add: WRITE_SIDE_def process_init_def main_init_def del: upt_Suc)
  moreover have "map (\<lambda>i. outbound (of_nat i)) [0..<2 ^ 64 + 1] ! (2 ^ 64) = outbound 0"
  proof -
    have "map (\<lambda>i. outbound (of_nat i)) [0..<2 ^ 64 + 1] ! (2 ^ 64)
            = outbound (of_nat (0 + 2 ^ 64))"
      by (rule nth_map_upt) simp
    also have "(of_nat (0 + 2 ^ 64) :: 64 word) = 0"
      by simp
    finally show ?thesis .
  qed
  moreover have "map (\<lambda>i. outbound (of_nat i)) [0..<2 ^ 64 + 1] ! (2 ^ 64 - 1)
      = outbound 18446744073709551615"
  proof -
    have "map (\<lambda>i. outbound (of_nat i)) [0..<2 ^ 64 + 1] ! (2 ^ 64 - 1)
            = outbound (of_nat (0 + (2 ^ 64 - 1)))"
      by (rule nth_map_upt) simp
    also have "(of_nat (0 + (2 ^ 64 - 1)) :: 64 word) = 18446744073709551615"
      by simp
    finally show ?thesis .
  qed
  ultimately show ?thesis by simp
qed

text \<open>
  C4. The value \<^verbatim>\<open>write\<close> returns is not looked at. A pass in which \<^verbatim>\<open>write\<close>
  returned leaves the loop exactly when the \<^verbatim>\<open>GetLine\<close> of that pass sets
  \<^verbatim>\<open>error\<close>; and whatever \<^verbatim>\<open>write\<close> returned (failed, took a part, took all), a pass
  whose first read would block goes on to the next pass. A \<^verbatim>\<open>write\<close> that raises
  \<^verbatim>\<open>SIGPIPE\<close> does not return: the process ends inside it, and that pass reaches
  neither \<^verbatim>\<open>AddLine\<close> nor \<^verbatim>\<open>GetLine\<close>.
\<close>

theorem write_result_dropped:
  "(loop_body tc fc (m, p) = Some (Passed brk m' p') \<longrightarrow>
      shd (writes p (tc ! WRITE_SIDE)) \<noteq> WSigpipe \<and> brk = error m' \<and>
      (\<exists>r b q. GetLine (fc ! READ_SIDE) (buffer m) (polled tc fc (m, p)) = Some (r, brk, b, q))) \<and>
   (shd (writes p (tc ! WRITE_SIDE)) \<noteq> WSigpipe \<and>
    shd (reads p (fc ! READ_SIDE)) = RFail EAGAIN \<longrightarrow>
      (\<exists>m1 p1. loop_body tc fc (m, p) = Some (Passed False m1 p1))) \<and>
   (shd (writes p (tc ! WRITE_SIDE)) = WSigpipe \<longrightarrow>
      (\<exists>m1 p1. loop_body tc fc (m, p) = Some (Signalled m1 p1) \<and>
         trace p1 = trace p @ [EvWrite (tc ! WRITE_SIDE) (outbound (message_counter m)) None]))"
proof (intro conjI impI)
  assume b: "loop_body tc fc (m, p) = Some (Passed brk m' p')"
  from loop_body_Some [OF b] show "shd (writes p (tc ! WRITE_SIDE)) \<noteq> WSigpipe" by simp
  from loop_body_Some [OF b] show "brk = error m'" by auto
  from loop_body_Some [OF b]
  show "\<exists>r b q. GetLine (fc ! READ_SIDE) (buffer m) (polled tc fc (m, p)) = Some (r, brk, b, q)"
    by blast
next
  assume "shd (writes p (tc ! WRITE_SIDE)) \<noteq> WSigpipe \<and>
    shd (reads p (fc ! READ_SIDE)) = RFail EAGAIN"
  then have "shd (reads p (fc ! READ_SIDE)) = RFail EAGAIN"
    "shd (writes p (tc ! WRITE_SIDE)) \<noteq> WSigpipe" by simp_all
  from loop_body_would_block [OF this]
  show "\<exists>m1 p1. loop_body tc fc (m, p) = Some (Passed False m1 p1)" by blast
next
  assume s: "shd (writes p (tc ! WRITE_SIDE)) = WSigpipe"
  then have "fst (write_sys (tc ! WRITE_SIDE) (outbound (message_counter m)) p) = None"
    by (simp add: write_sys_returns)
  then have "trace (snd (write_sys (tc ! WRITE_SIDE) (outbound (message_counter m)) p)) =
      trace p @ [EvWrite (tc ! WRITE_SIDE) (outbound (message_counter m)) None]"
    by simp
  with loop_body_signal [OF s]
  show "\<exists>m1 p1. loop_body tc fc (m, p) = Some (Signalled m1 p1) \<and>
         trace p1 = trace p @ [EvWrite (tc ! WRITE_SIDE) (outbound (message_counter m)) None]"
    by blast
qed

theorem write_result_dropped_witness:
  "(\<exists>m1 p1. loop_body [3, 4] [5, 6]
      (main_init, process_init 0 (every_fd (feed [])) (every_fd (always (WFail EINTR))))
     = Some (Passed False m1 p1) \<and> \<not> error m1) \<and>
   (\<exists>m1 p1. loop_body [3, 4] [5, 6]
      (main_init, process_init 0 (every_fd (feed [])) (every_fd (always WSigpipe)))
     = Some (Signalled m1 p1) \<and> trace p1 = [EvWrite 4 (outbound 0) None])"
proof
  let ?p = "process_init 0 (every_fd (feed [])) (every_fd (always (WFail EINTR)))"
  have "shd (writes ?p ([3, 4] ! WRITE_SIDE)) \<noteq> WSigpipe \<and>
    shd (reads ?p ([5, 6] ! READ_SIDE)) = RFail EAGAIN"
    by (simp add: process_init_def every_fd_def)
  from write_result_dropped [where tc = "[3, 4]" and fc = "[5, 6]" and m = main_init and p = ?p,
      THEN conjunct2, THEN conjunct1, THEN mp, OF this]
  obtain m1 p1 where b: "loop_body [3, 4] [5, 6] (main_init, ?p) = Some (Passed False m1 p1)"
    by blast
  from write_result_dropped [where tc = "[3, 4]" and fc = "[5, 6]" and m = main_init and p = ?p
      and brk = False and m' = m1 and p' = p1, THEN conjunct1, THEN mp, OF b]
  have "\<not> error m1" by simp
  with b show "\<exists>m1 p1. loop_body [3, 4] [5, 6] (main_init, ?p) = Some (Passed False m1 p1) \<and>
      \<not> error m1" by blast
next
  let ?p = "process_init 0 (every_fd (feed [])) (every_fd (always WSigpipe))"
  have "shd (writes ?p ([3, 4] ! WRITE_SIDE)) = WSigpipe"
    by (simp add: process_init_def every_fd_def)
  from write_result_dropped [where tc = "[3, 4]" and fc = "[5, 6]" and m = main_init and p = ?p,
      THEN conjunct2, THEN conjunct2, THEN mp, OF this]
  show "\<exists>m1 p1. loop_body [3, 4] [5, 6] (main_init, ?p) = Some (Signalled m1 p1) \<and>
      trace p1 = [EvWrite 4 (outbound 0) None]"
    by (simp add: process_init_def main_init_def WRITE_SIDE_def)
qed

theorem write_result_dropped_counterexample:
  "fst (write_sys ([3, 4] ! WRITE_SIDE) (outbound 0)
      (process_init 0 (every_fd (feed [])) (every_fd (always (WFail EINTR))))) = Some (- 1) \<and>
   continues (loop_body [3, 4] [5, 6]
      (main_init, process_init 0 (every_fd (feed [])) (every_fd (always (WFail EINTR)))))"
proof
  let ?p = "process_init 0 (every_fd (feed [])) (every_fd (always (WFail EINTR)))"
  show "fst (write_sys ([3, 4] ! WRITE_SIDE) (outbound 0) ?p) = Some (- 1)"
    by (simp add: write_sys_def Let_def process_init_def every_fd_def)
  have "shd (reads ?p ([5, 6] ! READ_SIDE)) = RFail EAGAIN"
    "shd (writes ?p ([3, 4] ! WRITE_SIDE)) \<noteq> WSigpipe"
    by (simp_all add: process_init_def every_fd_def)
  from loop_body_would_block [OF this, where m = main_init]
  show "continues (loop_body [3, 4] [5, 6] (main_init, ?p))"
    by (auto simp: continues_def)
qed

text \<open>
  C1. The from-child descriptor answers one read with "would block" and is at end of
  stream from then on (the child has closed its output); every write succeeds. The read
  that returns 0 leaves \<^verbatim>\<open>errno\<close> at the \<^verbatim>\<open>EAGAIN\<close> of the earlier poll, so
  \<^verbatim>\<open>GetLine\<close> returns false and sets no error, as it does when there is no data, and
  the loop of \<^verbatim>\<open>main\<close> never leaves through \<^verbatim>\<open>break\<close>: after any number of passes
  it is still running.
\<close>

theorem end_of_stream_not_reported:
  "map_option fst (GetLine_calls 2 5 []
      (process_init 0 (every_fd (closing [RFail EAGAIN])) (every_fd (always WAll))))
     = Some [(False, False, []), (False, False, [])] \<and>
   (\<forall>n. map_option fst (main_loop n [3, 4] [5, 6]
      (main_init, process_init 0 (every_fd (closing [RFail EAGAIN])) (every_fd (always WAll))))
     = Some Running)"
proof
  let ?p = "process_init 0 (every_fd (closing [RFail EAGAIN])) (every_fd (always WAll))"
  show "map_option fst (GetLine_calls 2 5 [] ?p) = Some [(False, False, []), (False, False, [])]"
    by (simp add: numeral_2_eq_2 GetLine_would_block GetLine_end_of_stream process_init_def
        every_fd_def closing_def)
  show "\<forall>n. map_option fst (main_loop n [3, 4] [5, 6] (main_init, ?p)) = Some Running"
  proof
    fix n
    show "map_option fst (main_loop n [3, 4] [5, 6] (main_init, ?p)) = Some Running"
    proof (cases n)
      case 0
      then show ?thesis by simp
    next
      case (Suc k)
      have "shd (reads ?p ([5, 6] ! READ_SIDE)) = RFail EAGAIN"
        by (simp add: process_init_def every_fd_def closing_def READ_SIDE_def)
      moreover have "shd (writes ?p ([3, 4] ! WRITE_SIDE)) \<noteq> WSigpipe"
        by (simp add: process_init_def every_fd_def)
      ultimately obtain m1 p1 where
        b: "loop_body [3, 4] [5, 6] (main_init, ?p) = Some (Passed False m1 p1)"
        and r: "reads p1 = (reads ?p)([5, 6] ! READ_SIDE := stl (reads ?p ([5, 6] ! READ_SIDE)))"
          "errno p1 = EAGAIN"
          "writes p1 = (writes ?p)([3, 4] ! WRITE_SIDE := stl (writes ?p ([3, 4] ! WRITE_SIDE)))"
        using loop_body_would_block [where m = main_init] by blast
      have "reads p1 ([5, 6] ! READ_SIDE) = always REof"
        "writes p1 ([3, 4] ! WRITE_SIDE) = always WAll"
        using r by (simp_all add: process_init_def every_fd_def closing_def)
      from main_loop_closed [OF this(1) r(2) this(2), where n = k and m = m1] b Suc
      show ?thesis by auto
    qed
  qed
qed

section \<open>Descriptors after fork\<close>

text \<open>
  When \<^verbatim>\<open>main\<close> starts with standard input and standard output open and no pipe yet,
  and both \<^verbatim>\<open>pipe\<close> calls and the \<^verbatim>\<open>fork\<close> succeed, each process ends with exactly
  two descriptors on the pipes: the parent with the write end of the to-child pipe and
  the read end of the from-child pipe, the latter switched to non-blocking; the child
  with its standard input on the read end of the to-child pipe and its standard output
  on the write end of the from-child pipe, and with none of the four descriptors that
  \<^verbatim>\<open>pipe\<close> returned.
\<close>

lemma descriptors_with_stdio_open:
  assumes "establish lim t = Inr ro"
    and "t STDIN_FILENO \<noteq> None" and "t STDOUT_FILENO \<noteq> None"
    and "pipe_fds t = {}"
  shows "pipe_fds (parent_fds ro) = {to_child ro ! WRITE_SIDE, from_child ro ! READ_SIDE} \<and>
         to_child ro ! WRITE_SIDE \<noteq> from_child ro ! READ_SIDE \<and>
         parent_fds ro (to_child ro ! WRITE_SIDE) = Some (PipeEnd to_child_pipe WRITE_SIDE) \<and>
         parent_fds ro (from_child ro ! READ_SIDE) = Some (PipeEnd from_child_pipe READ_SIDE) \<and>
         pipe_fds (child_fds ro) = {STDIN_FILENO, STDOUT_FILENO} \<and>
         child_fds ro STDIN_FILENO = Some (PipeEnd to_child_pipe READ_SIDE) \<and>
         child_fds ro STDOUT_FILENO = Some (PipeEnd from_child_pipe WRITE_SIDE) \<and>
         (\<forall>fd\<in>set (to_child ro) \<union> set (from_child ro). child_fds ro fd = None) \<and>
         nonblocking ro = {PipeEnd from_child_pipe READ_SIDE}"
proof -
  from assms(1) obtain tc t1 fc t2 where
    p1: "pipe_sys lim to_child_pipe t = Some (tc, t1)"
    and p2: "pipe_sys lim from_child_pipe t1 = Some (fc, t2)"
    and ro: "ro = \<lparr>to_child = tc, from_child = fc, parent_fds = fst (InitializeParent tc fc t2),
                  child_fds = InitializeChild tc fc t2,
                  nonblocking = snd (InitializeParent tc fc t2)\<rparr>"
    by (auto simp: establish_def split: option.splits prod.splits)
  from pipe_sys_Some [OF p1] obtain r1 w1 where a:
    "tc = [r1, w1]" "t r1 = None" "t w1 = None" "r1 \<noteq> w1"
    "t1 = t(r1 \<mapsto> PipeEnd to_child_pipe READ_SIDE, w1 \<mapsto> PipeEnd to_child_pipe WRITE_SIDE)"
    by blast
  from pipe_sys_Some [OF p2] obtain r2 w2 where b:
    "fc = [r2, w2]" "t1 r2 = None" "t1 w2 = None" "r2 \<noteq> w2"
    "t2 = t1(r2 \<mapsto> PipeEnd from_child_pipe READ_SIDE, w2 \<mapsto> PipeEnd from_child_pipe WRITE_SIDE)"
    by blast
  have d: "r2 \<noteq> r1" "r2 \<noteq> w1" "w2 \<noteq> r1" "w2 \<noteq> w1" "t r2 = None" "t w2 = None"
    using b(2,3) unfolding a(5) by (auto split: if_splits)
  have "r1 \<noteq> STDIN_FILENO" "r1 \<noteq> STDOUT_FILENO" "w1 \<noteq> STDIN_FILENO" "w1 \<noteq> STDOUT_FILENO"
    "r2 \<noteq> STDIN_FILENO" "r2 \<noteq> STDOUT_FILENO" "w2 \<noteq> STDIN_FILENO" "w2 \<noteq> STDOUT_FILENO"
    using assms(2,3) a(2,3) d(5,6) by auto
  then have s: "r1 \<noteq> 0" "r1 \<noteq> 1" "w1 \<noteq> 0" "w1 \<noteq> 1" "r2 \<noteq> 0" "r2 \<noteq> 1" "w2 \<noteq> 0" "w2 \<noteq> 1"
    unfolding STDIN_FILENO_def STDOUT_FILENO_def by simp_all
  have io: "to_child ro = [r1, w1]" "from_child ro = [r2, w2]"
    by (simp_all add: ro a(1) b(1))
  have np: "\<And>fd f. t fd = Some f \<Longrightarrow> \<not> is_pipe f"
    using assms(4) by (auto simp: pipe_fds_def)
  have par: "parent_fds ro = t(w1 \<mapsto> PipeEnd to_child_pipe WRITE_SIDE,
                               r2 \<mapsto> PipeEnd from_child_pipe READ_SIDE)"
    using a b d
    by (auto simp: ro InitializeParent_def close_def Let_def READ_SIDE_def WRITE_SIDE_def
        fun_eq_iff)
  have chi: "child_fds ro = t(0 \<mapsto> PipeEnd to_child_pipe READ_SIDE,
                              1 \<mapsto> PipeEnd from_child_pipe WRITE_SIDE)"
    using a b d s
    by (auto simp: ro InitializeChild_def close_def dup2_def Let_def READ_SIDE_def
        WRITE_SIDE_def STDIN_FILENO_def STDOUT_FILENO_def fun_eq_iff)
  have nb: "nonblocking ro = {PipeEnd from_child_pipe READ_SIDE}"
    using a b d
    by (auto simp: ro InitializeParent_def close_def Let_def READ_SIDE_def WRITE_SIDE_def)
  have "pipe_fds (parent_fds ro) = {w1, r2}"
    unfolding par pipe_fds_def using np by (auto simp: is_pipe_def split: if_splits)
  moreover have "pipe_fds (child_fds ro) = {0, 1}"
    unfolding chi pipe_fds_def using np by (auto simp: is_pipe_def split: if_splits)
  moreover have "\<forall>fd\<in>set (to_child ro) \<union> set (from_child ro). child_fds ro fd = None"
    unfolding chi using a(2,3) d s by (auto simp: io)
  ultimately show ?thesis
    using a(4) b(4) d s nb
    by (simp add: par chi io READ_SIDE_def WRITE_SIDE_def STDIN_FILENO_def STDOUT_FILENO_def)
qed

lemma descriptors_from_stdio:
  "establish 16 stdio =
     Inr \<lparr>to_child = [3, 4], from_child = [5, 6],
          parent_fds = stdio(4 \<mapsto> PipeEnd to_child_pipe WRITE_SIDE,
                              5 \<mapsto> PipeEnd from_child_pipe READ_SIDE),
          child_fds = stdio(0 \<mapsto> PipeEnd to_child_pipe READ_SIDE,
                             1 \<mapsto> PipeEnd from_child_pipe WRITE_SIDE),
          nonblocking = {PipeEnd from_child_pipe READ_SIDE}\<rparr> \<and>
   pipe_fds (stdio(4 \<mapsto> PipeEnd to_child_pipe WRITE_SIDE,
                   5 \<mapsto> PipeEnd from_child_pipe READ_SIDE)) = {4, 5} \<and>
   pipe_fds (stdio(0 \<mapsto> PipeEnd to_child_pipe READ_SIDE,
                   1 \<mapsto> PipeEnd from_child_pipe WRITE_SIDE)) = {0, 1}"
proof -
  have f1: "free_fds 16 stdio = [3, 4, 5, 6, 7, 8, 9, 10, 11, 12, 13, 14, 15]"
    by (simp add: free_fds_def stdio_def upt_rec)
  have f2: "free_fds 16 (stdio(3 \<mapsto> PipeEnd to_child_pipe READ_SIDE,
                               4 \<mapsto> PipeEnd to_child_pipe WRITE_SIDE))
              = [5, 6, 7, 8, 9, 10, 11, 12, 13, 14, 15]"
    by (simp add: free_fds_def stdio_def upt_rec)
  have p1: "pipe_sys 16 to_child_pipe stdio =
      Some ([3, 4], stdio(3 \<mapsto> PipeEnd to_child_pipe READ_SIDE,
                           4 \<mapsto> PipeEnd to_child_pipe WRITE_SIDE))"
    by (simp add: pipe_sys_def f1)
  have p2: "pipe_sys 16 from_child_pipe
      (stdio(3 \<mapsto> PipeEnd to_child_pipe READ_SIDE, 4 \<mapsto> PipeEnd to_child_pipe WRITE_SIDE)) =
      Some ([5, 6], stdio(3 \<mapsto> PipeEnd to_child_pipe READ_SIDE,
                           4 \<mapsto> PipeEnd to_child_pipe WRITE_SIDE,
                           5 \<mapsto> PipeEnd from_child_pipe READ_SIDE,
                           6 \<mapsto> PipeEnd from_child_pipe WRITE_SIDE))"
    by (simp add: pipe_sys_def f2)
  have st: "stdio 3 = None" "stdio 4 = None" "stdio 5 = None" "stdio 6 = None"
    by (simp_all add: stdio_def)
  have e: "establish 16 stdio =
     Inr \<lparr>to_child = [3, 4], from_child = [5, 6],
          parent_fds = stdio(4 \<mapsto> PipeEnd to_child_pipe WRITE_SIDE,
                              5 \<mapsto> PipeEnd from_child_pipe READ_SIDE),
          child_fds = stdio(0 \<mapsto> PipeEnd to_child_pipe READ_SIDE,
                             1 \<mapsto> PipeEnd from_child_pipe WRITE_SIDE),
          nonblocking = {PipeEnd from_child_pipe READ_SIDE}\<rparr>"
    apply (simp only: establish_def p1 p2 option.case prod.case)
    apply (auto simp: InitializeParent_def InitializeChild_def
        close_def dup2_def Let_def READ_SIDE_def WRITE_SIDE_def STDIN_FILENO_def
        STDOUT_FILENO_def st fun_eq_iff)
    done
  have "stdio STDIN_FILENO \<noteq> None" "stdio STDOUT_FILENO \<noteq> None" "pipe_fds stdio = {}"
    by (auto simp: stdio_def STDIN_FILENO_def STDOUT_FILENO_def pipe_fds_def is_pipe_def
        split: if_splits)
  from descriptors_with_stdio_open [OF e this] e show ?thesis
    by (simp add: READ_SIDE_def WRITE_SIDE_def STDIN_FILENO_def STDOUT_FILENO_def)
qed

text \<open>
  C7. \<^verbatim>\<open>main\<close> starts with standard input closed. The first \<^verbatim>\<open>pipe\<close> returns
  descriptor 0 as the read end of the to-child pipe; in \<^verbatim>\<open>InitializeChild\<close>
  \<^verbatim>\<open>dup2(0, 0)\<close> changes nothing and the \<^verbatim>\<open>close\<close> that follows closes the
  descriptor just redirected. The child ends with one descriptor on the pipes, its
  standard output, and without standard input; the parent has its two.
\<close>

theorem child_loses_stdin:
  "establish 16 no_stdin =
     Inr \<lparr>to_child = [0, 3], from_child = [4, 5],
          parent_fds = no_stdin(3 \<mapsto> PipeEnd to_child_pipe WRITE_SIDE,
                                4 \<mapsto> PipeEnd from_child_pipe READ_SIDE),
          child_fds = no_stdin(1 \<mapsto> PipeEnd from_child_pipe WRITE_SIDE),
          nonblocking = {PipeEnd from_child_pipe READ_SIDE}\<rparr> \<and>
   pipe_fds (no_stdin(3 \<mapsto> PipeEnd to_child_pipe WRITE_SIDE,
                      4 \<mapsto> PipeEnd from_child_pipe READ_SIDE)) = {3, 4} \<and>
   pipe_fds (no_stdin(1 \<mapsto> PipeEnd from_child_pipe WRITE_SIDE)) = {1} \<and>
   (no_stdin(1 \<mapsto> PipeEnd from_child_pipe WRITE_SIDE)) STDIN_FILENO = None"
proof -
  have f1: "free_fds 16 no_stdin = [0, 3, 4, 5, 6, 7, 8, 9, 10, 11, 12, 13, 14, 15]"
    by (simp add: free_fds_def no_stdin_def upt_rec)
  have f2: "free_fds 16 (no_stdin(0 \<mapsto> PipeEnd to_child_pipe READ_SIDE,
                                  3 \<mapsto> PipeEnd to_child_pipe WRITE_SIDE))
              = [4, 5, 6, 7, 8, 9, 10, 11, 12, 13, 14, 15]"
    by (simp add: free_fds_def no_stdin_def upt_rec)
  have p1: "pipe_sys 16 to_child_pipe no_stdin =
      Some ([0, 3], no_stdin(0 \<mapsto> PipeEnd to_child_pipe READ_SIDE,
                              3 \<mapsto> PipeEnd to_child_pipe WRITE_SIDE))"
    by (simp add: pipe_sys_def f1)
  have p2: "pipe_sys 16 from_child_pipe
      (no_stdin(0 \<mapsto> PipeEnd to_child_pipe READ_SIDE, 3 \<mapsto> PipeEnd to_child_pipe WRITE_SIDE)) =
      Some ([4, 5], no_stdin(0 \<mapsto> PipeEnd to_child_pipe READ_SIDE,
                              3 \<mapsto> PipeEnd to_child_pipe WRITE_SIDE,
                              4 \<mapsto> PipeEnd from_child_pipe READ_SIDE,
                              5 \<mapsto> PipeEnd from_child_pipe WRITE_SIDE))"
    by (simp add: pipe_sys_def f2)
  have st: "no_stdin 0 = None" "no_stdin 3 = None" "no_stdin 4 = None" "no_stdin 5 = None"
    "no_stdin 1 = Some Terminal" "no_stdin 2 = Some Terminal"
    by (simp_all add: no_stdin_def)
  have e: "establish 16 no_stdin =
     Inr \<lparr>to_child = [0, 3], from_child = [4, 5],
          parent_fds = no_stdin(3 \<mapsto> PipeEnd to_child_pipe WRITE_SIDE,
                                4 \<mapsto> PipeEnd from_child_pipe READ_SIDE),
          child_fds = no_stdin(1 \<mapsto> PipeEnd from_child_pipe WRITE_SIDE),
          nonblocking = {PipeEnd from_child_pipe READ_SIDE}\<rparr>"
    apply (simp only: establish_def p1 p2 option.case prod.case)
    apply (auto simp: InitializeParent_def InitializeChild_def
        close_def dup2_def Let_def READ_SIDE_def WRITE_SIDE_def STDIN_FILENO_def
        STDOUT_FILENO_def st fun_eq_iff)
    done
  have "pipe_fds (no_stdin(3 \<mapsto> PipeEnd to_child_pipe WRITE_SIDE,
                      4 \<mapsto> PipeEnd from_child_pipe READ_SIDE)) = {3, 4}"
    by (auto simp: pipe_fds_def is_pipe_def no_stdin_def split: if_splits)
  moreover have "pipe_fds (no_stdin(1 \<mapsto> PipeEnd from_child_pipe WRITE_SIDE)) = {1}"
    by (auto simp: pipe_fds_def is_pipe_def no_stdin_def split: if_splits)
  moreover have "(no_stdin(1 \<mapsto> PipeEnd from_child_pipe WRITE_SIDE)) STDIN_FILENO = None"
    by (simp add: STDIN_FILENO_def no_stdin_def)
  ultimately show ?thesis using e by simp
qed

end
